theory Spec2Isabelle
  imports Complex_Main "HOL-Library.Char_ord" "HOL-Library.List_Lexorder"
begin

section \<open>Conventions of the embedding\<close>

text \<open>
  The decision logic of \<^verbatim>\<open>weather_app.py\<close> is embedded function by function.
  A Python \<^verbatim>\<open>str\<close> is a \<^typ>\<open>string\<close> holding the UTF-8 bytes of the literal as
  they stand in the source file (equality and comparison of Python strings agree with
  equality and bytewise comparison of their UTF-8 encodings). A reading that the
  provider's JSON gives as a number (temperature, wind speed, precipitation
  probability) is a \<^typ>\<open>real\<close>, the real number that the float is. Comparisons,
  maxima and minima of floats are exact. Every other arithmetic operation on floats
  returns the rounded exact result; the rounding of the host's floats is a parameter
  \<open>rnd\<close> of the embedding, and so is the builtin \<^verbatim>\<open>sum\<close> on a list of floats,
  \<open>fl_sum\<close>, whose algorithm differs between interpreter versions. A Python
  exception is a value of \<open>py_error\<close>.
\<close>

datatype py_error = ValueError | ZeroDivisionError | KeyError | OverflowError | OSError

definition ebind :: "py_error + 'a \<Rightarrow> ('a \<Rightarrow> py_error + 'b) \<Rightarrow> py_error + 'b" where
  "ebind m f = (case m of Inl e \<Rightarrow> Inl e | Inr x \<Rightarrow> f x)"

section \<open>Clothing suggestion\<close>

definition icon_coat :: string where
  "icon_coat = [CHR 0xC4, CHR 0x9F, CHR 0xC5, CHR 0xB8, CHR 0xC2, CHR 0xA7, CHR 0xC2, CHR 0xA5]"

definition icon_shirt :: string where
  "icon_shirt = [CHR 0xC4, CHR 0x9F, CHR 0xC5, CHR 0xB8, CHR 0xE2, CHR 0x80, CHR 0x98,
                 CHR 0xE2, CHR 0x80, CHR 0xA2]"

definition tier_heavy_winter :: string where
  "tier_heavy_winter = icon_coat @ '' Heavy winter coat, gloves, scarf, and warm boots''"

definition tier_warm_jacket :: string where
  "tier_warm_jacket = icon_coat @ '' Warm jacket, long sleeves, and closed shoes''"

definition tier_light_jacket :: string where
  "tier_light_jacket = icon_shirt @ '' Light jacket or sweater recommended''"

definition tier_long_sleeves :: string where
  "tier_long_sleeves = icon_shirt @ '' Long sleeves or light layers''"

definition tier_casual :: string where
  "tier_casual = icon_shirt @ '' Comfortable casual wear''"

definition tier_breathable :: string where
  "tier_breathable = icon_shirt @ '' Light, breathable clothing. Stay hydrated!''"

lemmas tier_defs =
  icon_coat_def icon_shirt_def tier_heavy_winter_def tier_warm_jacket_def
  tier_light_jacket_def tier_long_sleeves_def tier_casual_def tier_breathable_def

definition get_clothing_suggestion :: "real \<Rightarrow> string \<Rightarrow> string" where
  "get_clothing_suggestion temp_c condition =
     (if temp_c < 0 then tier_heavy_winter
      else if temp_c < 10 then tier_warm_jacket
      else if temp_c < 15 then tier_light_jacket
      else if temp_c < 20 then tier_long_sleeves
      else if temp_c < 25 then tier_casual
      else tier_breathable)"

section \<open>Air-quality and UV classifiers\<close>

definition get_aqi_info :: "int \<Rightarrow> string \<times> string" where
  "get_aqi_info aqi =
     (if aqi \<le> 50 then (''Good'', ''#00e400'')
      else if aqi \<le> 100 then (''Moderate'', ''#ffff00'')
      else if aqi \<le> 150 then (''Unhealthy for Sensitive Groups'', ''#ff7e00'')
      else if aqi \<le> 200 then (''Unhealthy'', ''#ff0000'')
      else if aqi \<le> 300 then (''Very Unhealthy'', ''#8f3f97'')
      else (''Hazardous'', ''#7e0023''))"

definition get_uv_info :: "real \<Rightarrow> string \<times> string" where
  "get_uv_info uvi =
     (if uvi < 3 then (''Low'', ''#3ea72d'')
      else if uvi < 6 then (''Moderate'', ''#fff300'')
      else if uvi < 8 then (''High'', ''#f18b00'')
      else if uvi < 11 then (''Very High'', ''#e53210'')
      else (''Extreme'', ''#b567a4''))"

definition aqi_bands :: "(string \<times> string) list" where
  "aqi_bands =
     [(''Good'', ''#00e400''), (''Moderate'', ''#ffff00''),
      (''Unhealthy for Sensitive Groups'', ''#ff7e00''), (''Unhealthy'', ''#ff0000''),
      (''Very Unhealthy'', ''#8f3f97''), (''Hazardous'', ''#7e0023'')]"

definition uv_bands :: "(string \<times> string) list" where
  "uv_bands =
     [(''Low'', ''#3ea72d''), (''Moderate'', ''#fff300''), (''High'', ''#f18b00''),
      (''Very High'', ''#e53210''), (''Extreme'', ''#b567a4'')]"

text \<open>
  The air-quality panel of \<^verbatim>\<open>render_advanced_features\<close>: the provider's index is
  multiplied by 50 and the product is both shown and classified.
\<close>

definition air_quality_panel :: "int \<Rightarrow> int \<times> string \<times> string" where
  "air_quality_panel aqi = (let aqi_value = aqi * 50 in (aqi_value, get_aqi_info aqi_value))"

section \<open>Current conditions, unit labels and alerts\<close>

text \<open>
  The fields of the current-conditions payload that the decision logic reads:
  \<^verbatim>\<open>data['main']['temp']\<close>, \<^verbatim>\<open>data['wind']['speed']\<close> and
  \<^verbatim>\<open>data['weather'][0]['main']\<close>. The provider returns the temperature in the unit
  system that was requested (Fahrenheit under \<^verbatim>\<open>imperial\<close>).
\<close>

record current_weather =
  cur_temp :: real
  cur_wind_speed :: real
  cur_condition :: string

definition deg_C :: string where
  "deg_C = [CHR 0xC3, CHR 0x82, CHR 0xC2, CHR 0xB0] @ ''C''"

definition deg_F :: string where
  "deg_F = [CHR 0xC3, CHR 0x82, CHR 0xC2, CHR 0xB0] @ ''F''"

definition temp_unit_of :: "string \<Rightarrow> string" where
  "temp_unit_of units = (if units = ''metric'' then deg_C else deg_F)"

definition speed_unit_of :: "string \<Rightarrow> string" where
  "speed_unit_of units = (if units = ''metric'' then ''m/s'' else ''mph'')"

text \<open>What \<^verbatim>\<open>render_current_weather\<close> decides: the two unit labels and the advice.\<close>

record current_view =
  temp_unit :: string
  speed_unit :: string
  what_to_wear :: string

definition render_current_weather :: "current_weather \<Rightarrow> string \<Rightarrow> current_view" where
  "render_current_weather data units =
     (let temp = cur_temp data;
          condition = cur_condition data
      in \<lparr>temp_unit = temp_unit_of units,
          speed_unit = speed_unit_of units,
          what_to_wear = get_clothing_suggestion temp condition\<rparr>)"

text \<open>
  The conversion the specification asks for before classification; the source has no
  such function.
\<close>

definition spec_fahrenheit_to_celsius :: "real \<Rightarrow> real" where
  "spec_fahrenheit_to_celsius f = (f - 32) * 5 / 9"

definition msg_freezing :: string where
  "msg_freezing = [CHR 0xC3, CHR 0xA2, CHR 0xC5, CHR 0xA1, CHR 0xC2, CHR 0xA0, CHR 0xC3,
                   CHR 0xAF, CHR 0xC2, CHR 0xB8] @ '' Freezing Temperature''"

definition msg_heat :: string where
  "msg_heat = [CHR 0xC4, CHR 0x9F, CHR 0xC5, CHR 0xB8, CHR 0xE2, CHR 0x80, CHR 0x9D,
               CHR 0xC2, CHR 0xA5] @ '' Extreme Heat Warning''"

definition msg_wind :: string where
  "msg_wind = [CHR 0xC4, CHR 0x9F, CHR 0xC5, CHR 0xB8, CHR 0xE2, CHR 0x80, CHR 0x99,
               CHR 0xC2, CHR 0xA8] @ '' High Wind Advisory''"

definition msg_condition :: "string \<Rightarrow> string" where
  "msg_condition condition =
     [CHR 0xC3, CHR 0xA2, CHR 0xE2, CHR 0x80, CHR 0xBA, CHR 0xCB, CHR 0x86, CHR 0xC3,
      CHR 0xAF, CHR 0xC2, CHR 0xB8] @ '' '' @ condition @ '' Alert''"

text \<open>The list \<^verbatim>\<open>alerts\<close> that \<^verbatim>\<open>render_alerts\<close> builds before showing it.\<close>

definition render_alerts :: "current_weather \<Rightarrow> (string \<times> string) list" where
  "render_alerts current_data =
     (let temp = cur_temp current_data;
          wind_speed = cur_wind_speed current_data;
          condition = cur_condition current_data;
          alerts0 = [];
          alerts1 = (if temp < 0 then alerts0 @ [(msg_freezing, ''warning'')] else alerts0);
          alerts2 = (if temp > 35 then alerts1 @ [(msg_heat, ''error'')] else alerts1);
          alerts3 = (if wind_speed > 10 then alerts2 @ [(msg_wind, ''warning'')] else alerts2);
          alerts4 = (if condition \<in> set [''Thunderstorm'', ''Snow'']
                     then alerts3 @ [(msg_condition condition, ''error'')] else alerts3)
      in alerts4)"

section \<open>Daily forecast\<close>

text \<open>
  A forecast item carries the fields that \<^verbatim>\<open>render_daily_forecast\<close> reads:
  \<^verbatim>\<open>item['dt']\<close>, \<^verbatim>\<open>item['main']['temp']\<close>, \<^verbatim>\<open>item['weather'][0]['main']\<close>,
  \<^verbatim>\<open>item.get('pop', 0)\<close> (the key may be absent), \<^verbatim>\<open>item['main']['humidity']\<close>
  and \<^verbatim>\<open>item['wind']['speed']\<close>.
\<close>

record forecast_item =
  item_dt :: int
  item_temp :: real
  item_condition :: string
  item_pop :: "real option"
  item_humidity :: real
  item_wind :: real

text \<open>
  The calendar date of a local \<^verbatim>\<open>datetime\<close>. \<^verbatim>\<open>datetime.fromtimestamp\<close> depends on
  the time zone of the host and raises \<^verbatim>\<open>OverflowError\<close>, \<^verbatim>\<open>OSError\<close> or
  \<^verbatim>\<open>ValueError\<close> on a timestamp out of the platform's range, so the embedding takes
  it as a parameter \<open>fromtimestamp\<close>, from the epoch seconds to an error or the local
  date.
\<close>

record datetime =
  dt_year :: nat
  dt_month :: nat
  dt_day :: nat

definition digit_char :: "nat \<Rightarrow> char" where
  "digit_char n = char_of (48 + n mod 10)"

definition pad2 :: "nat \<Rightarrow> string" where
  "pad2 n = [digit_char (n div 10), digit_char n]"

definition pad4 :: "nat \<Rightarrow> string" where
  "pad4 n = [digit_char (n div 1000), digit_char (n div 100), digit_char (n div 10),
             digit_char n]"

text \<open>
  \<^verbatim>\<open>dt.strftime('%Y-%m-%d')\<close>: the year in four digits, the month and the day in two
  (for a year below 1000 the width of \<^verbatim>\<open>%Y\<close> depends on the platform; the statements
  about calendar order below are made for years from 1000 to 9999).
\<close>

definition strftime_Ymd :: "datetime \<Rightarrow> string" where
  "strftime_Ymd dt = pad4 (dt_year dt) @ ''-'' @ pad2 (dt_month dt) @ ''-'' @ pad2 (dt_day dt)"

definition calendar_date :: "datetime \<Rightarrow> bool" where
  "calendar_date dt \<longleftrightarrow>
     1000 \<le> dt_year dt \<and> dt_year dt \<le> 9999 \<and> 1 \<le> dt_month dt \<and> dt_month dt \<le> 12 \<and>
     1 \<le> dt_day dt \<and> dt_day dt \<le> 31"

definition same_day :: "datetime \<Rightarrow> datetime \<Rightarrow> bool" where
  "same_day a b \<longleftrightarrow>
     dt_year a = dt_year b \<and> dt_month a = dt_month b \<and> dt_day a = dt_day b"

definition date_before :: "datetime \<Rightarrow> datetime \<Rightarrow> bool" where
  "date_before a b \<longleftrightarrow>
     dt_year a < dt_year b \<or>
     (dt_year a = dt_year b \<and>
        (dt_month a < dt_month b \<or> (dt_month a = dt_month b \<and> dt_day a < dt_day b)))"

record day_entry =
  temps :: "real list"
  conditions :: "string list"
  rain_prob :: "real list"
  humidity :: "real list"
  wind :: "real list"
  date :: datetime

definition new_entry :: "datetime \<Rightarrow> day_entry" where
  "new_entry dt =
     \<lparr>temps = [], conditions = [], rain_prob = [], humidity = [], wind = [], date = dt\<rparr>"

definition pop_or_0 :: "forecast_item \<Rightarrow> real" where
  "pop_or_0 item = (case item_pop item of None \<Rightarrow> 0 | Some p \<Rightarrow> p)"

definition append_item :: "forecast_item \<Rightarrow> day_entry \<Rightarrow> day_entry" where
  "append_item item e =
     e\<lparr>temps := temps e @ [item_temp item],
       conditions := conditions e @ [item_condition item],
       rain_prob := rain_prob e @ [pop_or_0 item],
       humidity := humidity e @ [item_humidity item],
       wind := wind e @ [item_wind item]\<rparr>"

text \<open>
  \<^verbatim>\<open>daily_data\<close> is a dictionary from date keys to entries; it is kept as an
  association list in insertion order, with one pair for each key.
\<close>

type_synonym daily_dict = "(string \<times> day_entry) list"

fun dict_modify :: "'k \<Rightarrow> ('v \<Rightarrow> 'v) \<Rightarrow> ('k \<times> 'v) list \<Rightarrow> ('k \<times> 'v) list" where
  "dict_modify k f [] = []"
| "dict_modify k f ((k', v) # kvs) =
     (if k' = k then (k', f v) # kvs else (k', v) # dict_modify k f kvs)"

definition dict_get :: "('k \<times> 'v) list \<Rightarrow> 'k \<Rightarrow> py_error + 'v" where
  "dict_get d k = (case map_of d k of None \<Rightarrow> Inl KeyError | Some v \<Rightarrow> Inr v)"

text \<open>
  One pass of the grouping loop's body, once \<^verbatim>\<open>dt\<close> is there, and the loop: it stops
  with the error of the first timestamp that \<^verbatim>\<open>fromtimestamp\<close> refuses.
\<close>

definition group_step :: "datetime \<Rightarrow> daily_dict \<Rightarrow> forecast_item \<Rightarrow> daily_dict" where
  "group_step dt daily_data item =
     (let date_key = strftime_Ymd dt;
          daily_data1 = (if map_of daily_data date_key = None
                         then daily_data @ [(date_key, new_entry dt)] else daily_data)
      in dict_modify date_key (append_item item) daily_data1)"

fun group_loop ::
  "(int \<Rightarrow> py_error + datetime) \<Rightarrow> daily_dict \<Rightarrow> forecast_item list \<Rightarrow> py_error + daily_dict" where
  "group_loop fromtimestamp daily_data [] = Inr daily_data"
| "group_loop fromtimestamp daily_data (item # items) =
     ebind (fromtimestamp (item_dt item)) (\<lambda>dt.
     group_loop fromtimestamp (group_step dt daily_data item) items)"

text \<open>
  The builtins \<^verbatim>\<open>max\<close> and \<^verbatim>\<open>min\<close> raise \<^verbatim>\<open>ValueError\<close> on an empty argument and
  keep the first of several greatest (least) elements; with \<^verbatim>\<open>key=\<close> the keys are
  compared. The division raises \<^verbatim>\<open>ZeroDivisionError\<close> on a zero divisor and
  rounds the quotient otherwise.
\<close>

fun py_max :: "'a::linorder list \<Rightarrow> py_error + 'a" where
  "py_max [] = Inl ValueError"
| "py_max (x # xs) = Inr (foldl (\<lambda>best y. if y > best then y else best) x xs)"

fun py_min :: "'a::linorder list \<Rightarrow> py_error + 'a" where
  "py_min [] = Inl ValueError"
| "py_min (x # xs) = Inr (foldl (\<lambda>best y. if y < best then y else best) x xs)"

fun py_max_key :: "('a \<Rightarrow> nat) \<Rightarrow> 'a list \<Rightarrow> py_error + 'a" where
  "py_max_key f [] = Inl ValueError"
| "py_max_key f (x # xs) = Inr (foldl (\<lambda>best y. if f y > f best then y else best) x xs)"

definition py_truediv :: "(real \<Rightarrow> real) \<Rightarrow> real \<Rightarrow> nat \<Rightarrow> py_error + real" where
  "py_truediv rnd a n = (if n = 0 then Inl ZeroDivisionError else Inr (rnd (a / real n)))"

text \<open>
  \<^verbatim>\<open>max(set(conds), key=conds.count)\<close>. The order in which a \<^verbatim>\<open>set\<close> of strings is
  iterated is fixed by the strings' hashes, which differ from one interpreter process
  to the next; the embedding takes it as a parameter \<open>set_iter\<close>, the list of the
  set's elements in iteration order.
\<close>

definition most_common :: "(string list \<Rightarrow> string list) \<Rightarrow> string list \<Rightarrow> py_error + string" where
  "most_common set_iter conds = py_max_key (count_list conds) (set_iter conds)"

definition set_iteration :: "(string list \<Rightarrow> string list) \<Rightarrow> string list \<Rightarrow> bool" where
  "set_iteration set_iter conds \<longleftrightarrow>
     distinct (set_iter conds) \<and> list_all (\<lambda>c. c \<in> set conds) (set_iter conds) \<and>
     list_all (\<lambda>c. c \<in> set (set_iter conds)) conds"

text \<open>
  The dominant condition in the specification's words: the first code of the bucket,
  in input order, that no other code of the bucket outnumbers.
\<close>

definition spec_dominant :: "string list \<Rightarrow> string option" where
  "spec_dominant conds =
     List.find (\<lambda>c. list_all (\<lambda>d. count_list conds d \<le> count_list conds c) conds) conds"

text \<open>The figures of one day's card, before they are formatted.\<close>

record day_card =
  card_date :: datetime
  card_condition :: string
  card_high :: real
  card_low :: real
  card_rain :: real
  card_wind :: real

definition day_card_of ::
  "(string list \<Rightarrow> string list) \<Rightarrow> (real list \<Rightarrow> real) \<Rightarrow> (real \<Rightarrow> real) \<Rightarrow> day_entry
     \<Rightarrow> py_error + day_card" where
  "day_card_of set_iter fl_sum rnd day =
     ebind (most_common set_iter (conditions day)) (\<lambda>condition.
     ebind (py_max (temps day)) (\<lambda>high.
     ebind (py_min (temps day)) (\<lambda>low.
     ebind (py_max (rain_prob day)) (\<lambda>rain.
     ebind (py_truediv rnd (fl_sum (wind day)) (length (wind day))) (\<lambda>mean_wind.
     Inr \<lparr>card_date = date day, card_condition = condition, card_high = high,
          card_low = low, card_rain = rnd (rain * 100), card_wind = mean_wind\<rparr>)))))"

fun render_days ::
  "(string list \<Rightarrow> string list) \<Rightarrow> (real list \<Rightarrow> real) \<Rightarrow> (real \<Rightarrow> real) \<Rightarrow> daily_dict
     \<Rightarrow> string list \<Rightarrow> py_error + day_card list" where
  "render_days set_iter fl_sum rnd daily_data [] = Inr []"
| "render_days set_iter fl_sum rnd daily_data (date_key # ks) =
     ebind (dict_get daily_data date_key) (\<lambda>day.
     ebind (day_card_of set_iter fl_sum rnd day) (\<lambda>card.
     ebind (render_days set_iter fl_sum rnd daily_data ks) (\<lambda>cards. Inr (card # cards))))"

definition render_daily_forecast ::
  "(int \<Rightarrow> py_error + datetime) \<Rightarrow> (string list \<Rightarrow> string list) \<Rightarrow> (real list \<Rightarrow> real)
     \<Rightarrow> (real \<Rightarrow> real) \<Rightarrow> forecast_item list \<Rightarrow> py_error + day_card list" where
  "render_daily_forecast fromtimestamp set_iter fl_sum rnd items =
     ebind (group_loop fromtimestamp [] items) (\<lambda>daily_data.
     render_days set_iter fl_sum rnd daily_data (take 7 (sort (map fst daily_data))))"

text \<open>
  The dictionary that the grouping loop builds when every timestamp is converted, as
  one fold over the items; \<open>local_date\<close> names the dates the conversions give.
\<close>

definition group_by_day :: "(int \<Rightarrow> datetime) \<Rightarrow> forecast_item list \<Rightarrow> daily_dict" where
  "group_by_day local_date items =
     foldl (\<lambda>daily_data item. group_step (local_date (item_dt item)) daily_data item) [] items"

text \<open>
  Names for the statements about the daily forecast: the date key of an item, the
  items of one date in input order, and the date key of a card.
\<close>

definition date_key :: "(int \<Rightarrow> datetime) \<Rightarrow> forecast_item \<Rightarrow> string" where
  "date_key local_date item = strftime_Ymd (local_date (item_dt item))"

definition bucket :: "(int \<Rightarrow> datetime) \<Rightarrow> string \<Rightarrow> forecast_item list \<Rightarrow> forecast_item list" where
  "bucket local_date k items = filter (\<lambda>item. date_key local_date item = k) items"

definition card_key :: "day_card \<Rightarrow> string" where
  "card_key c = strftime_Ymd (card_date c)"

text \<open>
  What the grouping loop keeps true of the entry stored under a key, and what a card
  says about the items of its date (used in the proofs below).
\<close>

definition entry_ok :: "(int \<Rightarrow> datetime) \<Rightarrow> forecast_item list \<Rightarrow> string \<Rightarrow> day_entry \<Rightarrow> bool" where
  "entry_ok F items k e \<longleftrightarrow>
     temps e = map item_temp (bucket F k items) \<and>
     conditions e = map item_condition (bucket F k items) \<and>
     rain_prob e = map pop_or_0 (bucket F k items) \<and>
     wind e = map item_wind (bucket F k items) \<and>
     strftime_Ymd (date e) = k \<and>
     (\<exists>i \<in> set items. date e = F (item_dt i))"

definition card_summary ::
  "(int \<Rightarrow> datetime) \<Rightarrow> (string list \<Rightarrow> string list) \<Rightarrow> (real list \<Rightarrow> real) \<Rightarrow> (real \<Rightarrow> real)
     \<Rightarrow> forecast_item list \<Rightarrow> day_card \<Rightarrow> bool" where
  "card_summary G S fl_sum rnd items c \<longleftrightarrow>
     bucket G (card_key c) items \<noteq> [] \<and>
     (\<exists>i \<in> set items. card_date c = G (item_dt i)) \<and>
     most_common S (map item_condition (bucket G (card_key c) items)) = Inr (card_condition c) \<and>
     card_high c = Max (set (map item_temp (bucket G (card_key c) items))) \<and>
     card_low c = Min (set (map item_temp (bucket G (card_key c) items))) \<and>
     card_rain c = rnd (Max (set (map pop_or_0 (bucket G (card_key c) items))) * 100) \<and>
     card_wind c = rnd (fl_sum (map item_wind (bucket G (card_key c) items)) /
                        real (length (bucket G (card_key c) items)))"

text \<open>
  A concrete run: a host on UTC, for timestamps within January 2024, and eight
  three-hourly items of 15 January 2024, whose temperatures and wind speeds are whole
  numbers and whose precipitation probabilities are binary fractions, so that no
  operation on them rounds.
\<close>

definition january_2024_utc :: "int \<Rightarrow> datetime" where
  "january_2024_utc ts = \<lparr>dt_year = 2024, dt_month = 1, dt_day = nat (ts div 86400 - 19722)\<rparr>"

definition item_of :: "int \<Rightarrow> real \<Rightarrow> string \<Rightarrow> real option \<Rightarrow> real \<Rightarrow> forecast_item" where
  "item_of ts t c p w =
     \<lparr>item_dt = ts, item_temp = t, item_condition = c, item_pop = p, item_humidity = 70,
      item_wind = w\<rparr>"

definition one_day_of_items :: "forecast_item list" where
  "one_day_of_items =
     [item_of 1705276800 (-2) ''Snow'' (Some (3/4)) 3,
      item_of 1705287600 (-1) ''Snow'' (Some (1/2)) 5,
      item_of 1705298400 1 ''Clouds'' None 4,
      item_of 1705309200 4 ''Clouds'' (Some (1/8)) 6,
      item_of 1705320000 7 ''Clouds'' None 2,
      item_of 1705330800 5 ''Clear'' None 4,
      item_of 1705341600 2 ''Clouds'' (Some (1/4)) 5,
      item_of 1705352400 0 ''Snow'' (Some (1/2)) 3]"

section \<open>Moon phase\<close>

text \<open>
  The moon phase of \<^verbatim>\<open>render_advanced_features\<close> is computed from the calendar date
  of \<^verbatim>\<open>datetime.now()\<close> alone, which the embedding takes as the parameter \<open>now\<close>:

  \<^verbatim>\<open>moon_age = ((now.year - 2000) * 12.3685 + now.month + now.day / 30.0) % 29.53\<close>

  \<^verbatim>\<open>phase_idx = int(moon_age / 29.53 * 8) % 8\<close>

  The literals \<^verbatim>\<open>12.3685\<close> and \<^verbatim>\<open>29.53\<close> are the floats nearest to them, \<open>rnd\<close> of
  the decimal; \<^verbatim>\<open>30.0\<close>, \<^verbatim>\<open>8\<close>, the year less 2000, the month and the day are whole
  numbers that floats hold exactly. \<^verbatim>\<open>int\<close> of a float truncates towards zero. The
  remainder \<^verbatim>\<open>%\<close> of two floats is the C function \<^verbatim>\<open>fmod\<close>, whose result (the
  dividend less the divisor times the truncated quotient) is a float and is not
  rounded, to which the divisor is added, with rounding, when it is not zero and its
  sign is not the divisor's; a zero divisor raises \<^verbatim>\<open>ZeroDivisionError\<close>, as it does
  in a division.
\<close>

definition py_int :: "real \<Rightarrow> int" where
  "py_int x = (if 0 \<le> x then \<lfloor>x\<rfloor> else \<lceil>x\<rceil>)"

definition fmod :: "real \<Rightarrow> real \<Rightarrow> real" where
  "fmod vx wx = vx - wx * of_int (py_int (vx / wx))"

definition float_rem :: "(real \<Rightarrow> real) \<Rightarrow> real \<Rightarrow> real \<Rightarrow> py_error + real" where
  "float_rem rnd vx wx =
     (if wx = 0 then Inl ZeroDivisionError
      else let m = fmod vx wx
           in Inr (if m \<noteq> 0 then (if (wx < 0) \<noteq> (m < 0) then rnd (m + wx) else m) else 0))"

definition float_div :: "(real \<Rightarrow> real) \<Rightarrow> real \<Rightarrow> real \<Rightarrow> py_error + real" where
  "float_div rnd a b = (if b = 0 then Inl ZeroDivisionError else Inr (rnd (a / b)))"

definition moon_age :: "(real \<Rightarrow> real) \<Rightarrow> datetime \<Rightarrow> py_error + real" where
  "moon_age rnd now =
     ebind (float_div rnd (real (dt_day now)) 30) (\<lambda>days.
       float_rem rnd
         (rnd (rnd (rnd (of_int (int (dt_year now) - 2000) * rnd 12.3685)
                    + real (dt_month now)) + days))
         (rnd 29.53))"

definition phase_idx :: "(real \<Rightarrow> real) \<Rightarrow> datetime \<Rightarrow> py_error + int" where
  "phase_idx rnd now =
     ebind (moon_age rnd now) (\<lambda>age.
     ebind (float_div rnd age (rnd 29.53)) (\<lambda>q.
       Inr (py_int (rnd (q * 8)) mod 8)))"

text \<open>
  What the claims about the moon phase speak of. A rounding is within \<open>1 / 10 ^ 9\<close> of its
  argument on numbers of magnitude up to \<open>10 ^ 6\<close> and maps no non-negative number
  below zero; the rounding to the nearest IEEE double is one (its error on such numbers
  is at most \<open>10 ^ 6 / 2 ^ 53\<close>), and so is the identity. \<open>moon_exact\<close> is the formula of the source
  before the remainder, in exact arithmetic, and \<open>month_part\<close> its part that does not
  depend on the day. The Gregorian calendar gives the date one day later, and the date
  \<open>k\<close> days later.
\<close>

definition rounding :: "(real \<Rightarrow> real) \<Rightarrow> bool" where
  "rounding rnd \<longleftrightarrow>
     (\<forall>x. \<bar>x\<bar> \<le> 1000000 \<longrightarrow> \<bar>rnd x - x\<bar> \<le> 1 / 10 ^ 9) \<and> (\<forall>x. 0 \<le> x \<longrightarrow> 0 \<le> rnd x)"

definition moon_exact :: "datetime \<Rightarrow> real" where
  "moon_exact now =
     of_int (int (dt_year now) - 2000) * 12.3685 + real (dt_month now) + real (dt_day now) / 30"

definition month_part :: "nat \<Rightarrow> nat \<Rightarrow> real" where
  "month_part y m = of_int (int y - 2000) * 12.3685 + real m"


definition leap_year :: "nat \<Rightarrow> bool" where
  "leap_year y \<longleftrightarrow> y mod 4 = 0 \<and> (y mod 100 \<noteq> 0 \<or> y mod 400 = 0)"

definition days_in_month :: "nat \<Rightarrow> nat \<Rightarrow> nat" where
  "days_in_month y m =
     (if m = 2 then (if leap_year y then 29 else 28)
      else if m = 4 \<or> m = 6 \<or> m = 9 \<or> m = 11 then 30 else 31)"

definition gregorian_date :: "datetime \<Rightarrow> bool" where
  "gregorian_date dt \<longleftrightarrow>
     1 \<le> dt_year dt \<and> dt_year dt \<le> 9999 \<and> 1 \<le> dt_month dt \<and> dt_month dt \<le> 12 \<and>
     1 \<le> dt_day dt \<and> dt_day dt \<le> days_in_month (dt_year dt) (dt_month dt)"

definition first_of_next_month :: "datetime \<Rightarrow> datetime" where
  "first_of_next_month dt =
     (if dt_month dt < 12
      then \<lparr>dt_year = dt_year dt, dt_month = dt_month dt + 1, dt_day = 1\<rparr>
      else \<lparr>dt_year = dt_year dt + 1, dt_month = 1, dt_day = 1\<rparr>)"

definition next_day :: "datetime \<Rightarrow> datetime" where
  "next_day dt =
     (if dt_day dt < days_in_month (dt_year dt) (dt_month dt)
      then \<lparr>dt_year = dt_year dt, dt_month = dt_month dt, dt_day = dt_day dt + 1\<rparr>
      else first_of_next_month dt)"

definition days_later :: "nat \<Rightarrow> datetime \<Rightarrow> datetime" where
  "days_later k dt = (next_day ^^ k) dt"

section \<open>Theorems\<close>



text \<open>
  C9. Each of the AQI and UV classifiers returns the pair of the band its argument lies
  in. The AQI bands end, inclusively, at 50, 100, 150, 200 and 300, and Hazardous is
  everything above 300; the UV bands end, exclusively, at 3, 6, 8 and 11, and Extreme is
  everything from 11. The bands of each classifier are pairwise different (so are their
  labels), hence every value gets exactly one band: no gap and no overlap.
\<close>

theorem aqi_uv_bands:
  "(a \<le> 50 \<longrightarrow> get_aqi_info a = (''Good'', ''#00e400'')) \<and>
   (50 < a \<and> a \<le> 100 \<longrightarrow> get_aqi_info a = (''Moderate'', ''#ffff00'')) \<and>
   (100 < a \<and> a \<le> 150 \<longrightarrow>
      get_aqi_info a = (''Unhealthy for Sensitive Groups'', ''#ff7e00'')) \<and>
   (150 < a \<and> a \<le> 200 \<longrightarrow> get_aqi_info a = (''Unhealthy'', ''#ff0000'')) \<and>
   (200 < a \<and> a \<le> 300 \<longrightarrow> get_aqi_info a = (''Very Unhealthy'', ''#8f3f97'')) \<and>
   (300 < a \<longrightarrow> get_aqi_info a = (''Hazardous'', ''#7e0023'')) \<and>
   get_aqi_info a \<in> set aqi_bands \<and> distinct (map fst aqi_bands) \<and>
   (u < 3 \<longrightarrow> get_uv_info u = (''Low'', ''#3ea72d'')) \<and>
   (3 \<le> u \<and> u < 6 \<longrightarrow> get_uv_info u = (''Moderate'', ''#fff300'')) \<and>
   (6 \<le> u \<and> u < 8 \<longrightarrow> get_uv_info u = (''High'', ''#f18b00'')) \<and>
   (8 \<le> u \<and> u < 11 \<longrightarrow> get_uv_info u = (''Very High'', ''#e53210'')) \<and>
   (11 \<le> u \<longrightarrow> get_uv_info u = (''Extreme'', ''#b567a4'')) \<and>
   get_uv_info u \<in> set uv_bands \<and> distinct (map fst uv_bands)"
proof -
  have aqi: "get_aqi_info a \<in> set aqi_bands" "distinct (map fst aqi_bands)"
    by (simp_all add: get_aqi_info_def aqi_bands_def)
  have uv: "get_uv_info u \<in> set uv_bands" "distinct (map fst uv_bands)"
    by (simp_all add: get_uv_info_def uv_bands_def)
  show ?thesis
    using aqi uv by (simp add: get_aqi_info_def get_uv_info_def)
qed

theorem aqi_uv_bands_witness:
  "get_aqi_info 50 = (''Good'', ''#00e400'') \<and>
   get_aqi_info 51 = (''Moderate'', ''#ffff00'') \<and>
   get_aqi_info 300 = (''Very Unhealthy'', ''#8f3f97'') \<and>
   get_aqi_info 301 = (''Hazardous'', ''#7e0023'') \<and>
   get_uv_info 3 = (''Moderate'', ''#fff300'') \<and>
   get_uv_info 11 = (''Extreme'', ''#b567a4'')"
  using aqi_uv_bands [of 50 3] aqi_uv_bands [of 51 11] aqi_uv_bands [of 300 0]
    aqi_uv_bands [of 301 0]
  by simp

text \<open>
  C10. For a provider index from 1 to 5 the shown value is the index times 50, one of
  50, 100, 150, 200, 250; the band is Good, Moderate, Unhealthy for Sensitive Groups,
  Unhealthy or Very Unhealthy in this order of the index, and never Hazardous.
\<close>

theorem provider_aqi_never_hazardous:
  assumes "1 \<le> aqi" and "aqi \<le> 5"
  shows "fst (air_quality_panel aqi) = aqi * 50 \<and>
         fst (air_quality_panel aqi) \<in> {50, 100, 150, 200, 250} \<and>
         fst (snd (air_quality_panel aqi)) =
           [''Good'', ''Moderate'', ''Unhealthy for Sensitive Groups'', ''Unhealthy'',
            ''Very Unhealthy''] ! nat (aqi - 1) \<and>
         fst (snd (air_quality_panel aqi)) \<noteq> ''Hazardous''"
proof -
  from assms have "aqi = 1 \<or> aqi = 2 \<or> aqi = 3 \<or> aqi = 4 \<or> aqi = 5"
    by arith
  then show ?thesis
    by (elim disjE) (simp_all add: air_quality_panel_def get_aqi_info_def)
qed

theorem provider_aqi_never_hazardous_witness:
  "air_quality_panel 5 = (250, ''Very Unhealthy'', ''#8f3f97'') \<and>
   fst (snd (air_quality_panel 3)) = ''Unhealthy for Sensitive Groups''"
proof -
  have "fst (air_quality_panel 5) = 250"
    and "fst (snd (air_quality_panel 5)) = ''Very Unhealthy''"
    and "fst (snd (air_quality_panel 3)) = ''Unhealthy for Sensitive Groups''"
    using provider_aqi_never_hazardous [of 5] provider_aqi_never_hazardous [of 3]
    by simp_all
  moreover have "snd (snd (air_quality_panel 5)) = ''#8f3f97''"
    by (simp add: air_quality_panel_def get_aqi_info_def)
  ultimately show ?thesis
    by (cases "air_quality_panel 5") simp
qed

text \<open>
  C5. The alert list is the concatenation, in this order, of the freezing warning when
  the temperature is below 0, the heat error when it is above 35, the wind warning when
  the wind speed is above 10, and, when the condition is Thunderstorm or Snow, the error
  whose message is the storm icon, a space, the condition's own name and the word
  Alert; each of the four is decided on its own. The four messages are written out
  byte by byte. The list is a function of the snapshot alone. Temperature -5, wind 12
  and Snow give the freezing warning, the wind warning and the error reading
  \<open>Snow Alert\<close>, in this order, and no heat alert.
\<close>

theorem alerts_fixed_order:
  "render_alerts d =
     (if cur_temp d < 0
      then [([CHR 0xC3, CHR 0xA2, CHR 0xC5, CHR 0xA1, CHR 0xC2, CHR 0xA0, CHR 0xC3, CHR 0xAF, CHR 0xC2,
          CHR 0xB8] @ '' Freezing Temperature'', ''warning'')]
      else []) @
     (if 35 < cur_temp d
      then [([CHR 0xC4, CHR 0x9F, CHR 0xC5, CHR 0xB8, CHR 0xE2, CHR 0x80, CHR 0x9D, CHR 0xC2, CHR 0xA5] @
          '' Extreme Heat Warning'', ''error'')]
      else []) @
     (if 10 < cur_wind_speed d
      then [([CHR 0xC4, CHR 0x9F, CHR 0xC5, CHR 0xB8, CHR 0xE2, CHR 0x80, CHR 0x99, CHR 0xC2, CHR 0xA8] @
          '' High Wind Advisory'', ''warning'')]
      else []) @
     (if cur_condition d = ''Thunderstorm'' \<or> cur_condition d = ''Snow''
      then [([CHR 0xC3, CHR 0xA2, CHR 0xE2, CHR 0x80, CHR 0xBA, CHR 0xCB, CHR 0x86, CHR 0xC3, CHR 0xAF,
          CHR 0xC2, CHR 0xB8] @ '' '' @ cur_condition d @ '' Alert'', ''error'')]
      else []) \<and>
   render_alerts \<lparr>cur_temp = - 5, cur_wind_speed = 12, cur_condition = ''Snow''\<rparr> =
     [([CHR 0xC3, CHR 0xA2, CHR 0xC5, CHR 0xA1, CHR 0xC2, CHR 0xA0, CHR 0xC3, CHR 0xAF, CHR 0xC2,
          CHR 0xB8] @ '' Freezing Temperature'', ''warning''),
      ([CHR 0xC4, CHR 0x9F, CHR 0xC5, CHR 0xB8, CHR 0xE2, CHR 0x80, CHR 0x99, CHR 0xC2, CHR 0xA8] @
          '' High Wind Advisory'', ''warning''),
      ([CHR 0xC3, CHR 0xA2, CHR 0xE2, CHR 0x80, CHR 0xBA, CHR 0xCB, CHR 0x86, CHR 0xC3, CHR 0xAF,
          CHR 0xC2, CHR 0xB8] @ '' Snow Alert'', ''error'')] \<and>
   ([CHR 0xC4, CHR 0x9F, CHR 0xC5, CHR 0xB8, CHR 0xE2, CHR 0x80, CHR 0x9D, CHR 0xC2, CHR 0xA5] @
          '' Extreme Heat Warning'', ''error'') \<notin>
     set (render_alerts \<lparr>cur_temp = - 5, cur_wind_speed = 12, cur_condition = ''Snow''\<rparr>)"
proof (intro conjI)
  show "render_alerts d =
     (if cur_temp d < 0
      then [([CHR 0xC3, CHR 0xA2, CHR 0xC5, CHR 0xA1, CHR 0xC2, CHR 0xA0, CHR 0xC3, CHR 0xAF, CHR 0xC2,
          CHR 0xB8] @ '' Freezing Temperature'', ''warning'')]
      else []) @
     (if 35 < cur_temp d
      then [([CHR 0xC4, CHR 0x9F, CHR 0xC5, CHR 0xB8, CHR 0xE2, CHR 0x80, CHR 0x9D, CHR 0xC2, CHR 0xA5] @
          '' Extreme Heat Warning'', ''error'')]
      else []) @
     (if 10 < cur_wind_speed d
      then [([CHR 0xC4, CHR 0x9F, CHR 0xC5, CHR 0xB8, CHR 0xE2, CHR 0x80, CHR 0x99, CHR 0xC2, CHR 0xA8] @
          '' High Wind Advisory'', ''warning'')]
      else []) @
     (if cur_condition d = ''Thunderstorm'' \<or> cur_condition d = ''Snow''
      then [([CHR 0xC3, CHR 0xA2, CHR 0xE2, CHR 0x80, CHR 0xBA, CHR 0xCB, CHR 0x86, CHR 0xC3, CHR 0xAF,
          CHR 0xC2, CHR 0xB8] @ '' '' @ cur_condition d @ '' Alert'', ''error'')]
      else [])"
    by (simp add: render_alerts_def msg_freezing_def msg_heat_def msg_wind_def
        msg_condition_def)
next
  show "render_alerts \<lparr>cur_temp = - 5, cur_wind_speed = 12, cur_condition = ''Snow''\<rparr> =
     [([CHR 0xC3, CHR 0xA2, CHR 0xC5, CHR 0xA1, CHR 0xC2, CHR 0xA0, CHR 0xC3, CHR 0xAF, CHR 0xC2,
          CHR 0xB8] @ '' Freezing Temperature'', ''warning''),
      ([CHR 0xC4, CHR 0x9F, CHR 0xC5, CHR 0xB8, CHR 0xE2, CHR 0x80, CHR 0x99, CHR 0xC2, CHR 0xA8] @
          '' High Wind Advisory'', ''warning''),
      ([CHR 0xC3, CHR 0xA2, CHR 0xE2, CHR 0x80, CHR 0xBA, CHR 0xCB, CHR 0x86, CHR 0xC3, CHR 0xAF,
          CHR 0xC2, CHR 0xB8] @ '' Snow Alert'', ''error'')]"
    by (simp add: render_alerts_def msg_freezing_def msg_heat_def msg_wind_def
        msg_condition_def)
next
  show "([CHR 0xC4, CHR 0x9F, CHR 0xC5, CHR 0xB8, CHR 0xE2, CHR 0x80, CHR 0x9D, CHR 0xC2, CHR 0xA5] @
          '' Extreme Heat Warning'', ''error'') \<notin>
     set (render_alerts \<lparr>cur_temp = - 5, cur_wind_speed = 12, cur_condition = ''Snow''\<rparr>)"
    by (simp add: render_alerts_def msg_freezing_def msg_heat_def msg_wind_def
        msg_condition_def)
qed

theorem alerts_fixed_order_witness:
  "render_alerts \<lparr>cur_temp = 40, cur_wind_speed = 3, cur_condition = ''Thunderstorm''\<rparr> =
     [([CHR 0xC4, CHR 0x9F, CHR 0xC5, CHR 0xB8, CHR 0xE2, CHR 0x80, CHR 0x9D, CHR 0xC2, CHR 0xA5] @
          '' Extreme Heat Warning'', ''error''),
      ([CHR 0xC3, CHR 0xA2, CHR 0xE2, CHR 0x80, CHR 0xBA, CHR 0xCB, CHR 0x86, CHR 0xC3, CHR 0xAF,
          CHR 0xC2, CHR 0xB8] @ '' Thunderstorm Alert'', ''error'')] \<and>
   render_alerts \<lparr>cur_temp = 20, cur_wind_speed = 10, cur_condition = ''Clear''\<rparr> = []"
  using
    alerts_fixed_order
      [of "\<lparr>cur_temp = 40, cur_wind_speed = 3, cur_condition = ''Thunderstorm''\<rparr>"]
    alerts_fixed_order
      [of "\<lparr>cur_temp = 20, cur_wind_speed = 10, cur_condition = ''Clear''\<rparr>"]
  by simp

text \<open>
  C2, as the code has it. The selector \<open>metric\<close> gives the Celsius symbol and m/s;
  \<open>imperial\<close> gives the Fahrenheit symbol and mph; and so does every other selector:
  the labels are chosen by comparing the selector with \<open>metric\<close> only, so a selector
  that is neither of the two is shown with the imperial labels, not the metric ones.
\<close>

theorem unit_labels:
  "(units = ''metric'' \<longrightarrow>
      temp_unit (render_current_weather d units) = deg_C \<and>
      speed_unit (render_current_weather d units) = ''m/s'') \<and>
   (units = ''imperial'' \<longrightarrow>
      temp_unit (render_current_weather d units) = deg_F \<and>
      speed_unit (render_current_weather d units) = ''mph'') \<and>
   (units \<noteq> ''metric'' \<longrightarrow>
      temp_unit (render_current_weather d units) = deg_F \<and>
      speed_unit (render_current_weather d units) = ''mph'') \<and>
   deg_C \<noteq> deg_F"
  by (simp add: render_current_weather_def temp_unit_of_def speed_unit_of_def
      deg_C_def deg_F_def)

theorem unit_labels_witness:
  "temp_unit (render_current_weather
      \<lparr>cur_temp = 21, cur_wind_speed = 4, cur_condition = ''Clear''\<rparr> ''metric'') = deg_C \<and>
   speed_unit (render_current_weather
      \<lparr>cur_temp = 21, cur_wind_speed = 4, cur_condition = ''Clear''\<rparr> ''metric'') = ''m/s'' \<and>
   temp_unit (render_current_weather
      \<lparr>cur_temp = 70, cur_wind_speed = 9, cur_condition = ''Clear''\<rparr> ''imperial'') = deg_F \<and>
   speed_unit (render_current_weather
      \<lparr>cur_temp = 70, cur_wind_speed = 9, cur_condition = ''Clear''\<rparr> ''imperial'') = ''mph''"
  using
    unit_labels [of "''metric''"
      "\<lparr>cur_temp = 21, cur_wind_speed = 4, cur_condition = ''Clear''\<rparr>"]
    unit_labels [of "''imperial''"
      "\<lparr>cur_temp = 70, cur_wind_speed = 9, cur_condition = ''Clear''\<rparr>"]
  by simp

text \<open>
  The claim of a metric fallback fails at the selector \<open>kelvin\<close>, which is neither
  \<open>metric\<close> nor \<open>imperial\<close>: it is shown with the Fahrenheit symbol and mph.
\<close>

theorem unit_fallback_counterexample:
  "''kelvin'' \<noteq> ''metric'' \<and> ''kelvin'' \<noteq> ''imperial'' \<and>
   temp_unit (render_current_weather
      \<lparr>cur_temp = 21, cur_wind_speed = 4, cur_condition = ''Clear''\<rparr> ''kelvin'') = deg_F \<and>
   speed_unit (render_current_weather
      \<lparr>cur_temp = 21, cur_wind_speed = 4, cur_condition = ''Clear''\<rparr> ''kelvin'') = ''mph'' \<and>
   \<not> (temp_unit (render_current_weather
      \<lparr>cur_temp = 21, cur_wind_speed = 4, cur_condition = ''Clear''\<rparr> ''kelvin'') = deg_C \<and>
      speed_unit (render_current_weather
      \<lparr>cur_temp = 21, cur_wind_speed = 4, cur_condition = ''Clear''\<rparr> ''kelvin'') = ''m/s'')"
  by (simp add: render_current_weather_def temp_unit_of_def speed_unit_of_def
      deg_C_def deg_F_def)

text \<open>
  C3 on the code. \<^verbatim>\<open>render_current_weather\<close> hands the payload's temperature to the
  classifier as it is, whatever the selector; the classifier's parameter is
  \<^verbatim>\<open>temp_c\<close>. Under \<open>imperial\<close> a reading of 50 (degrees Fahrenheit, 10 degrees
  Celsius) is therefore classified as 50 degrees Celsius: the advice is the tier from 25
  upwards, where the converted reading belongs to the band [10,15).
\<close>

theorem clothing_imperial_unconverted:
  "what_to_wear (render_current_weather d units) =
     get_clothing_suggestion (cur_temp d) (cur_condition d) \<and>
   what_to_wear (render_current_weather
      \<lparr>cur_temp = 50, cur_wind_speed = 5, cur_condition = ''Clear''\<rparr> ''imperial'') =
     tier_breathable \<and>
   spec_fahrenheit_to_celsius 50 = 10 \<and>
   get_clothing_suggestion (spec_fahrenheit_to_celsius 50) ''Clear'' = tier_light_jacket \<and>
   tier_breathable \<noteq> tier_light_jacket"
proof -
  have "tier_breathable \<noteq> tier_light_jacket"
    by (simp add: tier_defs)
  then show ?thesis
    by (simp add: render_current_weather_def get_clothing_suggestion_def
        spec_fahrenheit_to_celsius_def)
qed

subsection \<open>The greatest element under a key\<close>

lemma set_iteration_iff:
  "set_iteration S conds \<longleftrightarrow> distinct (S conds) \<and> set (S conds) = set conds"
  by (auto simp: set_iteration_def list_all_iff)

lemma fold_max_key:
  fixes f :: "'a \<Rightarrow> nat"
  shows "\<exists>pre post. x # xs = pre @ foldl (\<lambda>best y. if f y > f best then y else best) x xs # post \<and>
     (\<forall>d \<in> set pre. f d < f (foldl (\<lambda>best y. if f y > f best then y else best) x xs)) \<and>
     (\<forall>d \<in> set (x # xs). f d \<le> f (foldl (\<lambda>best y. if f y > f best then y else best) x xs))"
proof (induction xs rule: rev_induct)
  case Nil
  show ?case by (rule exI [of _ "[]"]) simp
next
  case (snoc y ys)
  define r where "r = foldl (\<lambda>best y. if f y > f best then y else best) x ys"
  have step: "foldl (\<lambda>best y. if f y > f best then y else best) x (ys @ [y]) =
      (if f y > f r then y else r)"
    by (simp add: r_def)
  from snoc obtain pre post where
    eq: "x # ys = pre @ r # post" and
    pre: "\<forall>d \<in> set pre. f d < f r" and
    all: "\<forall>d \<in> set (x # ys). f d \<le> f r"
    unfolding r_def by blast
  show ?case
  proof (cases "f y > f r")
    case True
    have a: "x # ys @ [y] = (x # ys) @ y # []" by simp
    have b: "\<forall>d \<in> set (x # ys). f d < f y"
    proof
      fix d assume "d \<in> set (x # ys)"
      with all have "f d \<le> f r" by blast
      with True show "f d < f y" by linarith
    qed
    have c: "\<forall>d \<in> set (x # ys @ [y]). f d \<le> f y"
    proof
      fix d assume "d \<in> set (x # ys @ [y])"
      then have "d = y \<or> d \<in> set (x # ys)" by auto
      with b show "f d \<le> f y" by (auto simp: less_imp_le)
    qed
    show ?thesis
      unfolding step using True a b c by (simp only: if_True) blast
  next
    case False
    have a: "x # ys @ [y] = pre @ r # (post @ [y])" using eq by simp
    have c: "\<forall>d \<in> set (x # ys @ [y]). f d \<le> f r"
    proof
      fix d assume "d \<in> set (x # ys @ [y])"
      then have "d = y \<or> d \<in> set (x # ys)" by auto
      with all False show "f d \<le> f r" by auto
    qed
    show ?thesis
      unfolding step using False a pre c by (simp only: if_False) blast
  qed
qed

lemma py_max_key_first_greatest:
  assumes "xs \<noteq> []"
  shows "\<exists>c pre post. py_max_key f xs = Inr c \<and> xs = pre @ c # post \<and>
     (\<forall>d \<in> set pre. f d < f c) \<and> (\<forall>d \<in> set xs. f d \<le> f c)"
proof -
  from assms obtain x r where xs: "xs = x # r" by (cases xs) auto
  from fold_max_key [of x r f] show ?thesis unfolding xs by auto
qed

lemma spec_dominant_greatest:
  assumes "c \<in> set conds" and "\<forall>d \<in> set conds. count_list conds d \<le> count_list conds c"
  shows "\<exists>c'. spec_dominant conds = Some c' \<and> c' \<in> set conds \<and>
           count_list conds c' = count_list conds c"
proof -
  let ?P = "\<lambda>c. list_all (\<lambda>d. count_list conds d \<le> count_list conds c) conds"
  have "?P c" using assms(2) by (simp add: list_all_iff)
  with assms(1) have "List.find ?P conds \<noteq> None"
    by (auto simp: find_None_iff)
  then obtain c' where f: "List.find ?P conds = Some c'" by blast
  then have "c' \<in> set conds" and "?P c'"
    by (auto simp: find_Some_iff)
  then have "count_list conds c \<le> count_list conds c'"
    using assms(1) by (simp add: list_all_iff)
  moreover have "count_list conds c' \<le> count_list conds c"
    using assms(2) \<open>c' \<in> set conds\<close> by blast
  ultimately show ?thesis using f \<open>c' \<in> set conds\<close> by (simp add: spec_dominant_def)
qed

text \<open>
  C1, as the code has it. For a non-empty bucket the dominant condition is a code of
  the bucket that no code outnumbers; among the codes tied for the highest frequency
  the winner is the one that the iteration over the set of the bucket's codes meets
  first (every code before it in that iteration is strictly less frequent). It has the
  frequency of the code that the specification names, and is that code whenever the
  highest frequency is reached by one code only.
\<close>

theorem dominant_condition_mode:
  assumes "set_iteration S conds" and "conds \<noteq> []"
  shows "\<exists>c pre post. most_common S conds = Inr c \<and> c \<in> set conds \<and>
           (\<forall>d. count_list conds d \<le> count_list conds c) \<and>
           S conds = pre @ c # post \<and>
           (\<forall>d \<in> set pre. count_list conds d < count_list conds c) \<and>
           (\<exists>c'. spec_dominant conds = Some c' \<and>
                 count_list conds c' = count_list conds c) \<and>
           ((\<forall>d \<in> set conds. count_list conds d = count_list conds c \<longrightarrow> d = c) \<longrightarrow>
              spec_dominant conds = Some c)"
proof -
  from assms have dist: "distinct (S conds)" and eq: "set (S conds) = set conds"
    by (simp_all add: set_iteration_iff)
  with assms(2) have "S conds \<noteq> []" by auto
  from py_max_key_first_greatest [OF this, of "count_list conds"]
  obtain c pre post where
    r: "py_max_key (count_list conds) (S conds) = Inr c" and
    split: "S conds = pre @ c # post" and
    pre: "\<forall>d \<in> set pre. count_list conds d < count_list conds c" and
    all: "\<forall>d \<in> set (S conds). count_list conds d \<le> count_list conds c"
    by blast
  have mem: "c \<in> set conds" using split eq by (metis in_set_conv_decomp)
  have all': "count_list conds d \<le> count_list conds c" for d
  proof (cases "d \<in> set conds")
    case True
    then show ?thesis using all eq by simp
  next
    case False
    then show ?thesis by (simp add: count_list_0_iff)
  qed
  from spec_dominant_greatest [OF mem] all' obtain c' where
    sd: "spec_dominant conds = Some c'" "c' \<in> set conds"
        "count_list conds c' = count_list conds c"
    by blast
  have uniq: "(\<forall>d \<in> set conds. count_list conds d = count_list conds c \<longrightarrow> d = c) \<longrightarrow>
              spec_dominant conds = Some c"
    using sd by auto
  show ?thesis
    unfolding most_common_def
    apply (rule exI [of _ c], rule exI [of _ pre], rule exI [of _ post])
    apply (intro conjI)
          apply (rule r)
         apply (rule mem)
        apply (simp add: all')
       apply (rule split)
      apply (rule pre)
     apply (rule exI [of _ c'])
     apply (simp add: sd)
    apply (rule uniq)
    done
qed

theorem dominant_condition_mode_witness:
  "most_common remdups [''Rain'', ''Clouds'', ''Rain''] = Inr ''Rain'' \<and>
   spec_dominant [''Rain'', ''Clouds'', ''Rain''] = Some ''Rain''"
proof -
  define L where "L = [''Rain'', ''Clouds'', ''Rain'']"
  have s: "set_iteration remdups L"
    by (simp add: set_iteration_def L_def)
  have n: "L \<noteq> []" by (simp add: L_def)
  from dominant_condition_mode [OF s n] obtain c where
    a: "most_common remdups L = Inr c" and
    u: "(\<forall>d \<in> set L. count_list L d = count_list L c \<longrightarrow> d = c) \<longrightarrow>
          spec_dominant L = Some c"
    by blast
  have m: "most_common remdups L = Inr ''Rain''"
    by (simp add: most_common_def L_def)
  with a have c: "c = ''Rain''" by simp
  have "\<forall>d \<in> set L. count_list L d = count_list L ''Rain'' \<longrightarrow> d = ''Rain''"
    by (simp add: L_def)
  with u c have "spec_dominant L = Some ''Rain''" by simp
  with m show ?thesis unfolding L_def by simp
qed

text \<open>
  The tie-break by first appearance fails for the bucket Rain, Clear when the set is
  iterated as Clear, Rain: both codes occur once, Rain appears first, Clear is chosen.
\<close>

theorem dominant_tie_counterexample:
  "set_iteration (\<lambda>conds. [''Clear'', ''Rain'']) [''Rain'', ''Clear''] \<and>
   count_list [''Rain'', ''Clear''] ''Rain'' = count_list [''Rain'', ''Clear''] ''Clear'' \<and>
   spec_dominant [''Rain'', ''Clear''] = Some ''Rain'' \<and>
   most_common (\<lambda>conds. [''Clear'', ''Rain'']) [''Rain'', ''Clear''] = Inr ''Clear'' \<and>
   ''Clear'' \<noteq> ''Rain''"
  by (simp add: set_iteration_def spec_dominant_def most_common_def)

text \<open>
  C7. On an empty sequence the grouping loop does not run, the dictionary stays empty,
  no card is computed (so neither \<^verbatim>\<open>fromtimestamp\<close>, nor \<^verbatim>\<open>max\<close>, nor the division
  is reached), and the result is the empty list of cards, not an error.
\<close>

theorem empty_forecast_no_cards:
  "group_loop fromtimestamp [] [] = Inr [] \<and> group_by_day local_date [] = [] \<and>
   render_daily_forecast fromtimestamp set_iter fl_sum rnd [] = Inr []"
  by (simp add: render_daily_forecast_def group_by_day_def ebind_def)

theorem empty_forecast_no_cards_witness:
  "render_daily_forecast (\<lambda>ts. Inr (january_2024_utc ts)) remdups sum_list (\<lambda>x. x) [] = Inr []"
  using empty_forecast_no_cards
    [of "\<lambda>ts. Inr (january_2024_utc ts)" january_2024_utc remdups sum_list "\<lambda>x. x"]
  by simp

subsection \<open>Date keys and calendar order\<close>

lemma of_char_digit: "(of_char (digit_char n) :: nat) = 48 + n mod 10"
proof -
  have "48 + n mod 10 < 256" by simp
  then show ?thesis by (simp add: digit_char_def)
qed

lemma digit_char_less: "digit_char a < digit_char b \<longleftrightarrow> a mod 10 < b mod 10"
  by (simp add: less_char_def of_char_digit)

lemma digit_char_eq: "digit_char a = digit_char b \<longleftrightarrow> a mod 10 = b mod 10"
proof
  assume "digit_char a = digit_char b"
  then have "(of_char (digit_char a) :: nat) = of_char (digit_char b)" by simp
  then show "a mod 10 = b mod 10" by (simp add: of_char_digit)
next
  assume "a mod 10 = b mod 10"
  then show "digit_char a = digit_char b" by (simp add: digit_char_def)
qed

lemma less_div_mod:
  fixes n m b :: nat
  assumes "0 < b"
  shows "n < m \<longleftrightarrow> n div b < m div b \<or> (n div b = m div b \<and> n mod b < m mod b)"
proof
  assume nm: "n < m"
  have le: "n div b \<le> m div b" using nm by (simp add: div_le_mono)
  show "n div b < m div b \<or> (n div b = m div b \<and> n mod b < m mod b)"
  proof (cases "n div b = m div b")
    case True
    have "n mod b < m mod b"
    proof -
      have "n = b * (m div b) + n mod b"
        using True mult_div_mod_eq [of b n] by simp
      moreover have "m = b * (m div b) + m mod b" by simp
      ultimately show ?thesis using nm by linarith
    qed
    with True show ?thesis by simp
  next
    case False
    with le show ?thesis by simp
  qed
next
  assume h: "n div b < m div b \<or> (n div b = m div b \<and> n mod b < m mod b)"
  then show "n < m"
  proof
    assume "n div b < m div b"
    then have "\<not> m \<le> n" using div_le_mono [of m n b] by linarith
    then show ?thesis by simp
  next
    assume e: "n div b = m div b \<and> n mod b < m mod b"
    have "n = b * (m div b) + n mod b"
      using e mult_div_mod_eq [of b n] by simp
    moreover have "m = b * (m div b) + m mod b" by simp
    ultimately show ?thesis using e by linarith
  qed
qed

lemma eq_div_mod:
  fixes n m b :: nat
  shows "n = m \<longleftrightarrow> n div b = m div b \<and> n mod b = m mod b"
  by (metis mult_div_mod_eq)

lemma pad2_less:
  assumes "n < 100" and "m < 100"
  shows "pad2 n < pad2 m \<longleftrightarrow> n < m"
proof -
  from assms have d: "n div 10 mod 10 = n div 10" "m div 10 mod 10 = m div 10"
    by simp_all
  show ?thesis
    unfolding pad2_def
    by (simp add: digit_char_less digit_char_eq d less_div_mod [of 10 n m])
qed

lemma pad2_eq:
  assumes "n < 100" and "m < 100"
  shows "pad2 n = pad2 m \<longleftrightarrow> n = m"
proof -
  from assms have d: "n div 10 mod 10 = n div 10" "m div 10 mod 10 = m div 10"
    by simp_all
  show ?thesis
    unfolding pad2_def
    by (simp add: digit_char_eq d eq_div_mod [of n m 10])
qed

lemma pad4_split: "pad4 n = pad2 (n div 100) @ pad2 (n mod 100)"
proof -
  have a: "n div 100 div 10 = n div 1000" by (simp add: div_mult2_eq [symmetric])
  have "n mod 100 = 10 * (n div 10 mod 10) + n mod 10"
    using mod_mult2_eq [of n 10 10] by simp
  then have "n mod 100 div 10 = n div 10 mod 10" by simp
  then have b: "n mod 100 div 10 mod 10 = n div 10 mod 10" by simp
  have c: "n mod 100 mod 10 = n mod 10"
    by (simp add: mod_mod_cancel)
  show ?thesis
    by (simp add: pad4_def pad2_def a digit_char_eq b c)
qed

lemma append_less_same_length:
  fixes xs ys :: "'a::linorder list"
  assumes "length xs = length ys"
  shows "xs @ us < ys @ vs \<longleftrightarrow> xs < ys \<or> (xs = ys \<and> us < vs)"
  using assms by (induction xs ys rule: list_induct2) auto

lemma length_pad2: "length (pad2 n) = 2"
  by (simp add: pad2_def)

lemma pad4_less:
  assumes "n < 10000" and "m < 10000"
  shows "pad4 n < pad4 m \<longleftrightarrow> n < m"
proof -
  from assms have h: "n div 100 < 100" "m div 100 < 100" "n mod 100 < 100" "m mod 100 < 100"
    by simp_all
  show ?thesis
    by (simp add: pad4_split append_less_same_length length_pad2
        pad2_less [OF h(1,2)] pad2_less [OF h(3,4)] pad2_eq [OF h(1,2)]
        less_div_mod [of 100 n m])
qed

lemma pad4_eq:
  assumes "n < 10000" and "m < 10000"
  shows "pad4 n = pad4 m \<longleftrightarrow> n = m"
proof -
  from assms have h: "n div 100 < 100" "m div 100 < 100" "n mod 100 < 100" "m mod 100 < 100"
    by simp_all
  show ?thesis
    by (simp add: pad4_split length_pad2 pad2_eq [OF h(1,2)] pad2_eq [OF h(3,4)]
        eq_div_mod [of n m 100])
qed

subsection \<open>The grouping loop and the cards\<close>

lemma dict_modify_keys: "map fst (dict_modify k f d) = map fst d"
  by (induction k f d rule: dict_modify.induct) auto

lemma map_of_dict_modify:
  "map_of (dict_modify k f d) k' =
     (if k' = k then map_option f (map_of d k) else map_of d k')"
  by (induction k f d rule: dict_modify.induct) auto

lemma group_step_keys:
  "map fst (group_step (F (item_dt x)) dd x) =
     (if date_key F x \<in> set (map fst dd) then map fst dd else map fst dd @ [date_key F x])"
  by (auto simp: group_step_def Let_def dict_modify_keys date_key_def map_of_eq_None_iff)

lemma map_of_group_step:
  "map_of (group_step (F (item_dt x)) dd x) k =
     (if k = date_key F x
      then Some (append_item x (case map_of dd k of None \<Rightarrow> new_entry (F (item_dt x)) | Some e \<Rightarrow> e))
      else map_of dd k)"
  by (auto simp: group_step_def Let_def map_of_dict_modify date_key_def map_add_def
      split: option.splits)

lemma bucket_snoc:
  "bucket F k (xs @ [x]) = (if date_key F x = k then bucket F k xs @ [x] else bucket F k xs)"
  by (simp add: bucket_def)

lemma bucket_empty_iff: "bucket F k xs = [] \<longleftrightarrow> k \<notin> date_key F ` set xs"
  by (auto simp: bucket_def filter_empty_conv)

lemma group_by_day_snoc:
  "group_by_day F (xs @ [x]) = group_step (F (item_dt x)) (group_by_day F xs) x"
  by (simp add: group_by_day_def)

lemma group_by_day_keys:
  "distinct (map fst (group_by_day F items)) \<and>
   set (map fst (group_by_day F items)) = date_key F ` set items"
proof (induction items rule: rev_induct)
  case Nil
  show ?case by (simp add: group_by_day_def)
next
  case (snoc x xs)
  then show ?case
    by (auto simp: group_by_day_snoc group_step_keys)
qed

lemma group_by_day_entries:
  "map_of (group_by_day F items) k = Some e \<Longrightarrow> entry_ok F items k e"
proof (induction items arbitrary: e rule: rev_induct)
  case Nil
  then show ?case by (simp add: group_by_day_def)
next
  case (snoc x xs)
  show ?case
  proof (cases "k = date_key F x")
    case False
    with snoc.prems have "map_of (group_by_day F xs) k = Some e"
      by (simp add: group_by_day_snoc map_of_group_step)
    from snoc.IH [OF this] False show ?thesis
      by (auto simp: entry_ok_def bucket_snoc)
  next
    case True
    show ?thesis
    proof (cases "map_of (group_by_day F xs) k")
      case None
      then have "k \<notin> date_key F ` set xs"
        using group_by_day_keys [of F xs] by (simp add: map_of_eq_None_iff)
      then have b: "bucket F k xs = []" by (simp add: bucket_empty_iff)
      from snoc.prems True None have "e = append_item x (new_entry (F (item_dt x)))"
        by (simp add: group_by_day_snoc map_of_group_step)
      with b True show ?thesis
        by (simp add: entry_ok_def bucket_snoc append_item_def new_entry_def date_key_def)
    next
      case (Some e0)
      from snoc.IH [OF Some] have ok: "entry_ok F xs k e0" .
      from snoc.prems True Some have "e = append_item x e0"
        by (simp add: group_by_day_snoc map_of_group_step)
      with ok True show ?thesis
        by (auto simp: entry_ok_def bucket_snoc append_item_def)
    qed
  qed
qed

lemma foldl_max_eq:
  fixes x :: "'a::linorder"
  shows "foldl (\<lambda>best y. if y > best then y else best) x xs = Max (set (x # xs))"
proof -
  have g: "(\<lambda>y best. if y > best then y else best) = (max :: 'a \<Rightarrow> 'a \<Rightarrow> 'a)"
    by (auto simp: fun_eq_iff max_def)
  have "foldl (\<lambda>best y. if y > best then y else best) x xs = fold max xs x"
    by (simp add: foldl_conv_fold g)
  then show ?thesis by (simp only: Max.set_eq_fold)
qed

lemma foldl_min_eq:
  fixes x :: "'a::linorder"
  shows "foldl (\<lambda>best y. if y < best then y else best) x xs = Min (set (x # xs))"
proof -
  have g: "(\<lambda>y best. if y < best then y else best) = (min :: 'a \<Rightarrow> 'a \<Rightarrow> 'a)"
    by (auto simp: fun_eq_iff min_def)
  have "foldl (\<lambda>best y. if y < best then y else best) x xs = fold min xs x"
    by (simp add: foldl_conv_fold g)
  then show ?thesis by (simp only: Min.set_eq_fold)
qed

lemma py_max_Max:
  assumes "xs \<noteq> []"
  shows "py_max xs = Inr (Max (set xs))"
proof -
  from assms obtain x r where xs: "xs = x # r" by (cases xs) auto
  show ?thesis unfolding xs by (simp only: py_max.simps foldl_max_eq)
qed

lemma py_min_Min:
  assumes "xs \<noteq> []"
  shows "py_min xs = Inr (Min (set xs))"
proof -
  from assms obtain x r where xs: "xs = x # r" by (cases xs) auto
  show ?thesis unfolding xs by (simp only: py_min.simps foldl_min_eq)
qed

lemma most_common_returns:
  assumes "set_iteration S conds" and "conds \<noteq> []"
  shows "\<exists>c. most_common S conds = Inr c"
proof -
  from assms have "S conds \<noteq> []"
    by (auto simp: set_iteration_def list_all_iff)
  then show ?thesis
    by (cases "S conds") (simp_all add: most_common_def)
qed

lemma most_common_greatest:
  assumes S: "set_iteration S conds" and ne: "conds \<noteq> []"
    and mc: "most_common S conds = Inr c"
  shows "c \<in> set conds \<and> (\<forall>d. count_list conds d \<le> count_list conds c)"
proof -
  from S have eq: "set (S conds) = set conds"
    by (simp add: set_iteration_iff)
  with ne have "S conds \<noteq> []" by auto
  from py_max_key_first_greatest [OF this, of "count_list conds"]
  obtain c' pre post where
    r: "py_max_key (count_list conds) (S conds) = Inr c'" and
    split: "S conds = pre @ c' # post" and
    all: "\<forall>d \<in> set (S conds). count_list conds d \<le> count_list conds c'"
    by blast
  from r mc have c: "c' = c" by (simp add: most_common_def)
  have mem: "c \<in> set conds"
  proof -
    have "c' \<in> set (S conds)" unfolding split by simp
    then show ?thesis using eq c by simp
  qed
  have "count_list conds d \<le> count_list conds c" for d
  proof (cases "d \<in> set conds")
    case True
    then show ?thesis using all eq c by simp
  next
    case False
    then show ?thesis by (simp add: count_list_0_iff)
  qed
  with mem show ?thesis by simp
qed

lemma day_card_of_entry:
  assumes ok: "entry_ok F items k e" and ne: "bucket F k items \<noteq> []"
    and S: "set_iteration S (conditions e)"
  shows "\<exists>c. day_card_of S fl_sum rnd e = Inr c \<and> card_date c = date e \<and>
     most_common S (map item_condition (bucket F k items)) = Inr (card_condition c) \<and>
     card_high c = Max (set (map item_temp (bucket F k items))) \<and>
     card_low c = Min (set (map item_temp (bucket F k items))) \<and>
     card_rain c = rnd (Max (set (map pop_or_0 (bucket F k items))) * 100) \<and>
     card_wind c = rnd (fl_sum (map item_wind (bucket F k items)) /
                        real (length (bucket F k items)))"
proof -
  from ok have f: "temps e = map item_temp (bucket F k items)"
    "conditions e = map item_condition (bucket F k items)"
    "rain_prob e = map pop_or_0 (bucket F k items)"
    "wind e = map item_wind (bucket F k items)"
    by (simp_all add: entry_ok_def)
  from ne f have n: "temps e \<noteq> []" "conditions e \<noteq> []" "rain_prob e \<noteq> []" "wind e \<noteq> []"
    by simp_all
  from most_common_returns [OF S n(2)] obtain cond where
    mc: "most_common S (conditions e) = Inr cond" by blast
  have mx: "py_max (temps e) = Inr (Max (set (temps e)))" by (rule py_max_Max [OF n(1)])
  have mn: "py_min (temps e) = Inr (Min (set (temps e)))" by (rule py_min_Min [OF n(1)])
  have mr: "py_max (rain_prob e) = Inr (Max (set (rain_prob e)))" by (rule py_max_Max [OF n(3)])
  have dv: "py_truediv rnd (fl_sum (wind e)) (length (wind e)) =
      Inr (rnd (fl_sum (wind e) / real (length (wind e))))"
    using n(4) by (simp add: py_truediv_def)
  have "day_card_of S fl_sum rnd e =
      Inr \<lparr>card_date = date e, card_condition = cond, card_high = Max (set (temps e)),
           card_low = Min (set (temps e)), card_rain = rnd (Max (set (rain_prob e)) * 100),
           card_wind = rnd (fl_sum (wind e) / real (length (wind e)))\<rparr>"
    by (simp add: day_card_of_def ebind_def mc mx mn mr dv)
  then show ?thesis
    using mc by (simp add: f)
qed

lemma render_days_ok:
  assumes S: "\<And>conds. set_iteration S conds"
    and ks: "set ks \<subseteq> date_key F ` set items"
  shows "\<exists>cards. render_days S fl_sum rnd (group_by_day F items) ks = Inr cards \<and>
           map card_key cards = ks \<and>
           (\<forall>c \<in> set cards. card_summary F S fl_sum rnd items c)"
  using ks
proof (induction ks)
  case Nil
  show ?case by simp
next
  case (Cons k ks)
  then have kin: "k \<in> date_key F ` set items" and rest: "set ks \<subseteq> date_key F ` set items"
    by simp_all
  from Cons.IH [OF rest] obtain cards where
    r: "render_days S fl_sum rnd (group_by_day F items) ks = Inr cards" and
    m: "map card_key cards = ks" and
    a: "\<forall>c \<in> set cards. card_summary F S fl_sum rnd items c"
    by blast
  from kin have "k \<in> set (map fst (group_by_day F items))"
    using group_by_day_keys [of F items] by simp
  then have "map_of (group_by_day F items) k \<noteq> None"
    by (simp add: map_of_eq_None_iff)
  then obtain e where e: "map_of (group_by_day F items) k = Some e" by blast
  from group_by_day_entries [OF e] have ok: "entry_ok F items k e" .
  from kin have ne: "bucket F k items \<noteq> []" by (simp add: bucket_empty_iff)
  from day_card_of_entry [OF ok ne S, of fl_sum rnd] obtain c where
    c: "day_card_of S fl_sum rnd e = Inr c" and cd: "card_date c = date e" and
    c1: "most_common S (map item_condition (bucket F k items)) = Inr (card_condition c)" and
    c2: "card_high c = Max (set (map item_temp (bucket F k items)))" and
    c3: "card_low c = Min (set (map item_temp (bucket F k items)))" and
    c4: "card_rain c = rnd (Max (set (map pop_or_0 (bucket F k items))) * 100)" and
    c5: "card_wind c = rnd (fl_sum (map item_wind (bucket F k items)) /
           real (length (bucket F k items)))"
    by blast
  from ok cd have ck: "card_key c = k" by (simp add: card_key_def entry_ok_def)
  from ok cd have "\<exists>i \<in> set items. card_date c = F (item_dt i)"
    by (simp add: entry_ok_def)
  with ne c1 c2 c3 c4 c5 have cs: "card_summary F S fl_sum rnd items c"
    unfolding card_summary_def ck by simp
  have "render_days S fl_sum rnd (group_by_day F items) (k # ks) = Inr (c # cards)"
    by (simp add: dict_get_def e c r ebind_def)
  with m a ck cs show ?case by simp
qed

lemma group_loop_fold:
  assumes "\<forall>i \<in> set items. F (item_dt i) = Inr (G (item_dt i))"
  shows "group_loop F dd items =
     Inr (foldl (\<lambda>daily_data item. group_step (G (item_dt item)) daily_data item) dd items)"
  using assms by (induction items arbitrary: dd) (simp_all add: ebind_def)

lemma group_loop_error:
  assumes "\<forall>i \<in> set pre. F (item_dt i) = Inr (G (item_dt i))" and "F (item_dt x) = Inl err"
  shows "group_loop F dd (pre @ x # post) = Inl err"
  using assms by (induction pre arbitrary: dd) (simp_all add: ebind_def)

lemma daily_forecast_conversion_error:
  assumes "\<forall>i \<in> set pre. F (item_dt i) = Inr (G (item_dt i))" and "F (item_dt x) = Inl err"
  shows "render_daily_forecast F S fl_sum rnd (pre @ x # post) = Inl err"
  using group_loop_error [OF assms, of "[]" post]
  by (simp add: render_daily_forecast_def ebind_def)

lemma mean_within_rounding:
  fixes s s' e1 e2 :: real
  assumes n: "0 < n" and a: "\<bar>s' - s\<bar> \<le> e1" and b: "\<bar>r - s' / real n\<bar> \<le> e2"
  shows "\<bar>r - s / real n\<bar> \<le> e1 / real n + e2"
proof -
  have "\<bar>s' / real n - s / real n\<bar> = \<bar>s' - s\<bar> / real n"
    using n by (simp add: diff_divide_distrib [symmetric])
  also have "\<dots> \<le> e1 / real n"
    using a n by (simp add: divide_right_mono)
  finally have c: "\<bar>s' / real n - s / real n\<bar> \<le> e1 / real n" .
  have "\<bar>r - s / real n\<bar> \<le> \<bar>r - s' / real n\<bar> + \<bar>s' / real n - s / real n\<bar>"
    by linarith
  with b c show ?thesis by linarith
qed

lemma sort_keys_eq:
  "sort (map fst (group_by_day F items)) = sort (remdups (map (date_key F) items))"
proof (rule sorted_distinct_set_unique)
  show "sorted (sort (map fst (group_by_day F items)))" by simp
  show "distinct (sort (map fst (group_by_day F items)))"
    using group_by_day_keys [of F items] by simp
  show "sorted (sort (remdups (map (date_key F) items)))" by simp
  show "distinct (sort (remdups (map (date_key F) items)))" by simp
  show "set (sort (map fst (group_by_day F items))) = set (sort (remdups (map (date_key F) items)))"
    using group_by_day_keys [of F items] by simp
qed

lemma length_pad4: "length (pad4 n) = 4"
  by (simp add: pad4_def)

lemma strftime_Ymd_less:
  assumes "calendar_date a" and "calendar_date b"
  shows "strftime_Ymd a < strftime_Ymd b \<longleftrightarrow> date_before a b"
proof -
  from assms have y: "dt_year a < 10000" "dt_year b < 10000"
    and m: "dt_month a < 100" "dt_month b < 100"
    and d: "dt_day a < 100" "dt_day b < 100"
    by (simp_all add: calendar_date_def)
  show ?thesis
    by (simp add: strftime_Ymd_def date_before_def append_less_same_length length_pad4
        length_pad2 pad4_less [OF y] pad4_eq [OF y] pad2_less [OF m] pad2_eq [OF m]
        pad2_less [OF d])
qed

lemma strftime_Ymd_eq:
  assumes "calendar_date a" and "calendar_date b"
  shows "strftime_Ymd a = strftime_Ymd b \<longleftrightarrow> same_day a b"
proof -
  from assms have y: "dt_year a < 10000" "dt_year b < 10000"
    and m: "dt_month a < 100" "dt_month b < 100"
    and d: "dt_day a < 100" "dt_day b < 100"
    by (simp_all add: calendar_date_def)
  show ?thesis
    by (simp add: strftime_Ymd_def same_day_def length_pad4
        length_pad2 pad4_eq [OF y] pad2_eq [OF m] pad2_eq [OF d])
qed

lemma cards_in_calendar_order:
  assumes v: "\<forall>c \<in> set cards. calendar_date (card_date c)"
    and s: "sorted (map card_key cards)" and d: "distinct (map card_key cards)"
  shows "sorted_wrt date_before (map card_date cards)"
proof -
  from s d have "sorted_wrt (<) (map card_key cards)"
    by (simp add: strict_sorted_iff)
  then have "sorted_wrt (\<lambda>a b. card_key a < card_key b) cards"
    by (simp add: sorted_wrt_map)
  then have "sorted_wrt (\<lambda>a b. date_before (card_date a) (card_date b)) cards"
  proof (rule sorted_wrt_mono_rel [rotated])
    fix a b assume "a \<in> set cards" "b \<in> set cards" "card_key a < card_key b"
    with v show "date_before (card_date a) (card_date b)"
      by (simp add: card_key_def strftime_Ymd_less)
  qed
  then show ?thesis by (simp add: sorted_wrt_map)
qed

text \<open>
  C6. Whatever the input sequence, whatever the order in which sets are iterated and
  whatever the rounding of the floats, when \<^verbatim>\<open>fromtimestamp\<close> converts the timestamp
  of every item (to the local date that \<open>G\<close> names) the daily forecast raises nothing
  and yields one card for each of the first seven date keys (in ascending order) among
  the local dates of the items: the keys of the cards are strictly ascending, there are
  at most seven cards, and when the items span at most seven dates every date has its
  card. Every card stands for a non-empty bucket, the items whose date key is the
  card's, and carries the maximum and the minimum of their temperatures; the maximum
  over the items of the precipitation probability (0 for an item without one), times
  100 as a float product; the float quotient of the float sum of their wind
  speeds by their number, which is within \<open>e1 / n + e2\<close> of the arithmetic mean when
  the sum is within \<open>e1\<close> of the exact sum and the quotient within \<open>e2\<close> of the exact
  quotient; and a condition of the bucket that none outnumbers. A bucket of one item
  has equal minimum and maximum. A non-empty sequence whose items share one date gives
  exactly one card. For local dates with a four-digit year the date keys are equal
  exactly for equal calendar dates and their order is the calendar's, so the buckets
  are the calendar days and the cards are in ascending order of date.
\<close>

theorem daily_forecast_aggregates:
  assumes S: "\<forall>conds. set_iteration S conds"
    and conv: "\<forall>i \<in> set items. F (item_dt i) = Inr (G (item_dt i))"
  shows "\<exists>cards. render_daily_forecast F S fl_sum rnd items = Inr cards \<and>
     map card_key cards = take 7 (sort (remdups (map (date_key G) items))) \<and>
     sorted (map card_key cards) \<and>
     distinct (map card_key cards) \<and>
     length cards \<le> 7 \<and>
     (length (remdups (map (date_key G) items)) \<le> 7 \<longrightarrow>
        set (map card_key cards) = date_key G ` set items) \<and>
     (\<forall>c \<in> set cards.
        bucket G (card_key c) items \<noteq> [] \<and>
        (\<exists>i \<in> set items. card_date c = G (item_dt i)) \<and>
        card_high c = Max (set (map item_temp (bucket G (card_key c) items))) \<and>
        card_low c = Min (set (map item_temp (bucket G (card_key c) items))) \<and>
        card_rain c =
          rnd (Max (set (map (\<lambda>i. case item_pop i of None \<Rightarrow> 0 | Some p \<Rightarrow> p)
                          (bucket G (card_key c) items))) * 100) \<and>
        card_wind c =
          rnd (fl_sum (map item_wind (bucket G (card_key c) items)) / real (length (bucket G (card_key c) items))) \<and>
        (\<forall>e1 e2.
           \<bar>fl_sum (map item_wind (bucket G (card_key c) items)) - sum_list (map item_wind (bucket G (card_key c) items))\<bar> \<le> e1 \<and>
           \<bar>card_wind c - fl_sum (map item_wind (bucket G (card_key c) items)) / real (length (bucket G (card_key c) items))\<bar> \<le> e2 \<longrightarrow>
           \<bar>card_wind c - sum_list (map item_wind (bucket G (card_key c) items)) / real (length (bucket G (card_key c) items))\<bar>
             \<le> e1 / real (length (bucket G (card_key c) items)) + e2) \<and>
        card_condition c \<in> set (map item_condition (bucket G (card_key c) items)) \<and>
        (\<forall>d. count_list (map item_condition (bucket G (card_key c) items)) d
               \<le> count_list (map item_condition (bucket G (card_key c) items)) (card_condition c)) \<and>
        most_common S (map item_condition (bucket G (card_key c) items)) = Inr (card_condition c) \<and>
        (length (bucket G (card_key c) items) = 1 \<longrightarrow> card_low c = card_high c)) \<and>
     (items \<noteq> [] \<and>
      (\<forall>i \<in> set items. date_key G i = date_key G (hd items)) \<longrightarrow>
        length cards = 1) \<and>
     ((\<forall>i \<in> set items. calendar_date (G (item_dt i))) \<longrightarrow>
        sorted_wrt date_before (map card_date cards) \<and>
        (\<forall>i \<in> set items. \<forall>j \<in> set items.
           date_key G i = date_key G j \<longleftrightarrow>
           same_day (G (item_dt i)) (G (item_dt j))))"
proof -
  define ks where "ks = take 7 (sort (remdups (map (date_key G) items)))"
  have ks_sub: "set ks \<subseteq> date_key G ` set items"
  proof -
    have "set ks \<subseteq> set (sort (remdups (map (date_key G) items)))"
      unfolding ks_def by (rule set_take_subset)
    then show ?thesis by simp
  qed
  have S': "\<And>conds. set_iteration S conds" using S by simp
  from render_days_ok [OF S' ks_sub, of fl_sum rnd] obtain cards where
    r: "render_days S fl_sum rnd (group_by_day G items) ks = Inr cards" and
    m: "map card_key cards = ks" and
    a: "\<forall>c \<in> set cards. card_summary G S fl_sum rnd items c"
    by blast
  have loop: "group_loop F [] items = Inr (group_by_day G items)"
    unfolding group_by_day_def by (rule group_loop_fold [OF conv])
  have res: "render_daily_forecast F S fl_sum rnd items = Inr cards"
    using r by (simp add: render_daily_forecast_def loop ebind_def sort_keys_eq ks_def)
  have srt: "sorted ks" unfolding ks_def by (simp add: sorted_wrt_take)
  have dst: "distinct ks" unfolding ks_def by simp
  have len: "length cards \<le> 7"
  proof -
    have "length (map card_key cards) \<le> 7" unfolding m ks_def by simp
    then show ?thesis by simp
  qed
  have all_days: "length (remdups (map (date_key G) items)) \<le> 7 \<longrightarrow>
        set ks = date_key G ` set items"
    by (simp add: ks_def)
  have same: "(items \<noteq> [] \<and>
      (\<forall>i \<in> set items. date_key G i = date_key G (hd items)) \<longrightarrow>
        length cards = 1)"
  proof
    assume h: "items \<noteq> [] \<and> (\<forall>i \<in> set items. date_key G i = date_key G (hd items))"
    then have "set (remdups (map (date_key G) items)) = {date_key G (hd items)}"
      by (cases items) auto
    then have "card (set (remdups (map (date_key G) items))) = 1" by simp
    then have "length (remdups (map (date_key G) items)) = 1"
      by (simp only: distinct_card [OF distinct_remdups])
    then have "length ks = 1" by (simp add: ks_def)
    with m show "length cards = 1" by (metis length_map)
  qed
  have m': "map card_key cards = take 7 (sort (remdups (map (date_key G) items)))"
    using m by (simp add: ks_def)
  have srt': "sorted (map card_key cards)" using m srt by simp
  have dst': "distinct (map card_key cards)" using m dst by simp
  have all': "(length (remdups (map (date_key G) items)) \<le> 7 \<longrightarrow>
        set (map card_key cards) = date_key G ` set items)"
    using all_days m by simp
  have cards_ok: "(\<forall>c \<in> set cards.
        bucket G (card_key c) items \<noteq> [] \<and>
        (\<exists>i \<in> set items. card_date c = G (item_dt i)) \<and>
        card_high c = Max (set (map item_temp (bucket G (card_key c) items))) \<and>
        card_low c = Min (set (map item_temp (bucket G (card_key c) items))) \<and>
        card_rain c =
          rnd (Max (set (map (\<lambda>i. case item_pop i of None \<Rightarrow> 0 | Some p \<Rightarrow> p)
                          (bucket G (card_key c) items))) * 100) \<and>
        card_wind c =
          rnd (fl_sum (map item_wind (bucket G (card_key c) items)) / real (length (bucket G (card_key c) items))) \<and>
        (\<forall>e1 e2.
           \<bar>fl_sum (map item_wind (bucket G (card_key c) items)) - sum_list (map item_wind (bucket G (card_key c) items))\<bar> \<le> e1 \<and>
           \<bar>card_wind c - fl_sum (map item_wind (bucket G (card_key c) items)) / real (length (bucket G (card_key c) items))\<bar> \<le> e2 \<longrightarrow>
           \<bar>card_wind c - sum_list (map item_wind (bucket G (card_key c) items)) / real (length (bucket G (card_key c) items))\<bar>
             \<le> e1 / real (length (bucket G (card_key c) items)) + e2) \<and>
        card_condition c \<in> set (map item_condition (bucket G (card_key c) items)) \<and>
        (\<forall>d. count_list (map item_condition (bucket G (card_key c) items)) d
               \<le> count_list (map item_condition (bucket G (card_key c) items)) (card_condition c)) \<and>
        most_common S (map item_condition (bucket G (card_key c) items)) = Inr (card_condition c) \<and>
        (length (bucket G (card_key c) items) = 1 \<longrightarrow> card_low c = card_high c))"
  proof
    fix c assume "c \<in> set cards"
    with a have cs: "card_summary G S fl_sum rnd items c" by blast
    define b where "b = bucket G (card_key c) items"
    from cs have ne: "b \<noteq> []"
      and dt: "\<exists>i \<in> set items. card_date c = G (item_dt i)"
      and mc: "most_common S (map item_condition b) = Inr (card_condition c)"
      and hi: "card_high c = Max (set (map item_temp b))"
      and lo: "card_low c = Min (set (map item_temp b))"
      and rain: "card_rain c = rnd (Max (set (map pop_or_0 b)) * 100)"
      and wnd: "card_wind c = rnd (fl_sum (map item_wind b) / real (length b))"
      unfolding card_summary_def b_def by simp_all
    have pop: "map pop_or_0 b = map (\<lambda>i. case item_pop i of None \<Rightarrow> 0 | Some p \<Rightarrow> p) b"
      by (simp add: pop_or_0_def)
    have rain': "card_rain c =
        rnd (Max (set (map (\<lambda>i. case item_pop i of None \<Rightarrow> 0 | Some p \<Rightarrow> p) b)) * 100)"
      using rain unfolding pop .
    have acc: "\<forall>e1 e2.
         \<bar>fl_sum (map item_wind b) - sum_list (map item_wind b)\<bar> \<le> e1 \<and>
         \<bar>card_wind c - fl_sum (map item_wind b) / real (length b)\<bar> \<le> e2 \<longrightarrow>
         \<bar>card_wind c - sum_list (map item_wind b) / real (length b)\<bar>
           \<le> e1 / real (length b) + e2"
    proof (intro allI impI)
      fix e1 e2
      assume h: "\<bar>fl_sum (map item_wind b) - sum_list (map item_wind b)\<bar> \<le> e1 \<and>
         \<bar>card_wind c - fl_sum (map item_wind b) / real (length b)\<bar> \<le> e2"
      from ne have "0 < length b" by simp
      from mean_within_rounding [OF this conjunct1 [OF h] conjunct2 [OF h]]
      show "\<bar>card_wind c - sum_list (map item_wind b) / real (length b)\<bar>
           \<le> e1 / real (length b) + e2" .
    qed
    have cne: "map item_condition b \<noteq> []" using ne by simp
    from most_common_greatest [OF S' cne mc]
    have gr: "card_condition c \<in> set (map item_condition b)"
      "\<forall>d. count_list (map item_condition b) d
             \<le> count_list (map item_condition b) (card_condition c)"
      by simp_all
    have one: "length b = 1 \<longrightarrow> card_low c = card_high c"
    proof
      assume "length b = 1"
      then obtain i where "b = [i]" by (cases b) auto
      with hi lo show "card_low c = card_high c" by simp
    qed
    show "bucket G (card_key c) items \<noteq> [] \<and>
        (\<exists>i \<in> set items. card_date c = G (item_dt i)) \<and>
        card_high c = Max (set (map item_temp (bucket G (card_key c) items))) \<and>
        card_low c = Min (set (map item_temp (bucket G (card_key c) items))) \<and>
        card_rain c =
          rnd (Max (set (map (\<lambda>i. case item_pop i of None \<Rightarrow> 0 | Some p \<Rightarrow> p)
                          (bucket G (card_key c) items))) * 100) \<and>
        card_wind c =
          rnd (fl_sum (map item_wind (bucket G (card_key c) items)) / real (length (bucket G (card_key c) items))) \<and>
        (\<forall>e1 e2.
           \<bar>fl_sum (map item_wind (bucket G (card_key c) items)) - sum_list (map item_wind (bucket G (card_key c) items))\<bar> \<le> e1 \<and>
           \<bar>card_wind c - fl_sum (map item_wind (bucket G (card_key c) items)) / real (length (bucket G (card_key c) items))\<bar> \<le> e2 \<longrightarrow>
           \<bar>card_wind c - sum_list (map item_wind (bucket G (card_key c) items)) / real (length (bucket G (card_key c) items))\<bar>
             \<le> e1 / real (length (bucket G (card_key c) items)) + e2) \<and>
        card_condition c \<in> set (map item_condition (bucket G (card_key c) items)) \<and>
        (\<forall>d. count_list (map item_condition (bucket G (card_key c) items)) d
               \<le> count_list (map item_condition (bucket G (card_key c) items)) (card_condition c)) \<and>
        most_common S (map item_condition (bucket G (card_key c) items)) = Inr (card_condition c) \<and>
        (length (bucket G (card_key c) items) = 1 \<longrightarrow> card_low c = card_high c)"
      unfolding b_def [symmetric]
      by (intro conjI ne dt hi lo rain' wnd acc gr mc one)
  qed
  have cal: "((\<forall>i \<in> set items. calendar_date (G (item_dt i))) \<longrightarrow>
        sorted_wrt date_before (map card_date cards) \<and>
        (\<forall>i \<in> set items. \<forall>j \<in> set items.
           date_key G i = date_key G j \<longleftrightarrow>
           same_day (G (item_dt i)) (G (item_dt j))))"
  proof
    assume v: "\<forall>i \<in> set items. calendar_date (G (item_dt i))"
    have "\<forall>c \<in> set cards. calendar_date (card_date c)"
    proof
      fix c assume "c \<in> set cards"
      with a obtain i where "i \<in> set items" "card_date c = G (item_dt i)"
        unfolding card_summary_def by blast
      with v show "calendar_date (card_date c)" by simp
    qed
    then have "sorted_wrt date_before (map card_date cards)"
      using srt' dst' by (rule cards_in_calendar_order)
    moreover have "\<forall>i \<in> set items. \<forall>j \<in> set items.
           date_key G i = date_key G j \<longleftrightarrow> same_day (G (item_dt i)) (G (item_dt j))"
      using v by (simp add: date_key_def strftime_Ymd_eq)
    ultimately show "sorted_wrt date_before (map card_date cards) \<and>
        (\<forall>i \<in> set items. \<forall>j \<in> set items.
           date_key G i = date_key G j \<longleftrightarrow>
           same_day (G (item_dt i)) (G (item_dt j)))"
      by (rule conjI)
  qed
  show ?thesis
    by (rule exI [of _ cards]) (intro conjI res m' srt' dst' len all' cards_ok same cal)
qed

subsection \<open>A day of eight items\<close>

lemma one_day_keys:
  "map (date_key january_2024_utc) one_day_of_items =
     [''2024-01-15'', ''2024-01-15'', ''2024-01-15'', ''2024-01-15'',
      ''2024-01-15'', ''2024-01-15'', ''2024-01-15'', ''2024-01-15'']"
  by (simp add: one_day_of_items_def item_of_def date_key_def january_2024_utc_def
      strftime_Ymd_def pad4_def pad2_def digit_char_def char_of_def bit_iff_odd)

lemma one_day_bucket:
  "bucket january_2024_utc ''2024-01-15'' one_day_of_items = one_day_of_items"
proof -
  have "\<forall>i \<in> set one_day_of_items. date_key january_2024_utc i = ''2024-01-15''"
  proof
    fix i assume "i \<in> set one_day_of_items"
    then have "date_key january_2024_utc i \<in> set (map (date_key january_2024_utc) one_day_of_items)"
      by simp
    then show "date_key january_2024_utc i = ''2024-01-15''"
      unfolding one_day_keys by simp
  qed
  then show ?thesis by (simp add: bucket_def)
qed

lemma one_day_sorted_keys:
  "take 7 (sort (remdups (map (date_key january_2024_utc) one_day_of_items))) = [''2024-01-15'']"
  unfolding one_day_keys by simp

theorem daily_forecast_aggregates_witness:
  "\<exists>c. render_daily_forecast (\<lambda>ts. Inr (january_2024_utc ts)) remdups sum_list (\<lambda>x. x)
          one_day_of_items = Inr [c] \<and>
     card_key c = ''2024-01-15'' \<and> card_high c = 7 \<and> card_low c = - 2 \<and>
     card_rain c = 75 \<and> card_wind c = 4 \<and> card_condition c = ''Clouds''"
proof -
  have S: "\<forall>conds. set_iteration remdups conds"
    by (simp add: set_iteration_iff)
  have conv: "\<forall>i \<in> set one_day_of_items.
      (\<lambda>ts. Inr (january_2024_utc ts)) (item_dt i) = Inr (january_2024_utc (item_dt i))"
    by simp
  from daily_forecast_aggregates [OF S conv, of sum_list "\<lambda>x. x"]
  obtain cards where all:
    "render_daily_forecast (\<lambda>ts. Inr (january_2024_utc ts)) remdups sum_list (\<lambda>x. x) one_day_of_items = Inr cards \<and>
     map card_key cards = take 7 (sort (remdups (map (date_key january_2024_utc) one_day_of_items))) \<and>
     sorted (map card_key cards) \<and>
     distinct (map card_key cards) \<and>
     length cards \<le> 7 \<and>
     (length (remdups (map (date_key january_2024_utc) one_day_of_items)) \<le> 7 \<longrightarrow>
        set (map card_key cards) = date_key january_2024_utc ` set one_day_of_items) \<and>
     (\<forall>c \<in> set cards.
        bucket january_2024_utc (card_key c) one_day_of_items \<noteq> [] \<and>
        (\<exists>i \<in> set one_day_of_items. card_date c = january_2024_utc (item_dt i)) \<and>
        card_high c = Max (set (map item_temp (bucket january_2024_utc (card_key c) one_day_of_items))) \<and>
        card_low c = Min (set (map item_temp (bucket january_2024_utc (card_key c) one_day_of_items))) \<and>
        card_rain c =
          (\<lambda>x. x) (Max (set (map (\<lambda>i. case item_pop i of None \<Rightarrow> 0 | Some p \<Rightarrow> p)
                          (bucket january_2024_utc (card_key c) one_day_of_items))) * 100) \<and>
        card_wind c =
          (\<lambda>x. x) (sum_list (map item_wind (bucket january_2024_utc (card_key c) one_day_of_items)) / real (length (bucket january_2024_utc (card_key c) one_day_of_items))) \<and>
        (\<forall>e1 e2.
           \<bar>sum_list (map item_wind (bucket january_2024_utc (card_key c) one_day_of_items)) - sum_list (map item_wind (bucket january_2024_utc (card_key c) one_day_of_items))\<bar> \<le> e1 \<and>
           \<bar>card_wind c - sum_list (map item_wind (bucket january_2024_utc (card_key c) one_day_of_items)) / real (length (bucket january_2024_utc (card_key c) one_day_of_items))\<bar> \<le> e2 \<longrightarrow>
           \<bar>card_wind c - sum_list (map item_wind (bucket january_2024_utc (card_key c) one_day_of_items)) / real (length (bucket january_2024_utc (card_key c) one_day_of_items))\<bar>
             \<le> e1 / real (length (bucket january_2024_utc (card_key c) one_day_of_items)) + e2) \<and>
        card_condition c \<in> set (map item_condition (bucket january_2024_utc (card_key c) one_day_of_items)) \<and>
        (\<forall>d. count_list (map item_condition (bucket january_2024_utc (card_key c) one_day_of_items)) d
               \<le> count_list (map item_condition (bucket january_2024_utc (card_key c) one_day_of_items)) (card_condition c)) \<and>
        most_common remdups (map item_condition (bucket january_2024_utc (card_key c) one_day_of_items)) = Inr (card_condition c) \<and>
        (length (bucket january_2024_utc (card_key c) one_day_of_items) = 1 \<longrightarrow> card_low c = card_high c)) \<and>
     (one_day_of_items \<noteq> [] \<and>
      (\<forall>i \<in> set one_day_of_items. date_key january_2024_utc i = date_key january_2024_utc (hd one_day_of_items)) \<longrightarrow>
        length cards = 1) \<and>
     ((\<forall>i \<in> set one_day_of_items. calendar_date (january_2024_utc (item_dt i))) \<longrightarrow>
        sorted_wrt date_before (map card_date cards) \<and>
        (\<forall>i \<in> set one_day_of_items. \<forall>j \<in> set one_day_of_items.
           date_key january_2024_utc i = date_key january_2024_utc j \<longleftrightarrow>
           same_day (january_2024_utc (item_dt i)) (january_2024_utc (item_dt j))))"
    by (rule exE)
  note r = all [THEN conjunct1]
  note k = all [THEN conjunct2, THEN conjunct1]
  note a = all [THEN conjunct2, THEN conjunct2, THEN conjunct2, THEN conjunct2,
    THEN conjunct2, THEN conjunct2, THEN conjunct1]
  have "map card_key cards = [''2024-01-15'']"
    using k by (simp only: one_day_sorted_keys)
  then obtain c where cards: "cards = [c]" and ck: "card_key c = ''2024-01-15''"
    by auto
  have cin: "c \<in> set cards" by (simp add: cards)
  note f = a [rule_format, OF cin, unfolded ck one_day_bucket]
  note f_high = f [THEN conjunct2, THEN conjunct2, THEN conjunct1]
  note f_low = f [THEN conjunct2, THEN conjunct2, THEN conjunct2, THEN conjunct1]
  note f_rain = f [THEN conjunct2, THEN conjunct2, THEN conjunct2, THEN conjunct2,
    THEN conjunct1]
  note f_wind = f [THEN conjunct2, THEN conjunct2, THEN conjunct2, THEN conjunct2,
    THEN conjunct2, THEN conjunct1]
  note f_cond = f [THEN conjunct2, THEN conjunct2, THEN conjunct2, THEN conjunct2,
    THEN conjunct2, THEN conjunct2, THEN conjunct2, THEN conjunct2, THEN conjunct2,
    THEN conjunct1]
  have e1: "Max (set (map item_temp one_day_of_items)) = 7"
    by (simp add: one_day_of_items_def item_of_def)
  have e2: "Min (set (map item_temp one_day_of_items)) = - 2"
    by (simp add: one_day_of_items_def item_of_def)
  have e3: "Max (set (map (\<lambda>i. case item_pop i of None \<Rightarrow> 0 | Some p \<Rightarrow> p)
      one_day_of_items)) * 100 = 75"
    by (simp add: one_day_of_items_def item_of_def)
  have e4: "sum_list (map item_wind one_day_of_items) / real (length one_day_of_items) = 4"
    by (simp add: one_day_of_items_def item_of_def)
  have e5: "most_common remdups (map item_condition one_day_of_items) = Inr ''Clouds''"
    by (simp add: one_day_of_items_def item_of_def most_common_def)
  have v1: "card_high c = 7" by (simp only: f_high e1)
  have v2: "card_low c = - 2" by (simp only: f_low e2)
  have v3: "card_rain c = 75" by (simp only: f_rain e3)
  have v4: "card_wind c = 4" by (simp only: f_wind e4)
  have v5: "card_condition c = ''Clouds''" using f_cond e5 by simp
  show ?thesis
    by (rule exI [of _ c]) (intro conjI r [unfolded cards] ck v1 v2 v3 v4 v5)
qed

subsection \<open>Moon phase\<close>

lemma rounding_close:
  assumes "rounding rnd" and "\<bar>x\<bar> \<le> 1000000"
  shows "\<bar>rnd x - x\<bar> \<le> 1 / 1000000000"
  using assms by (simp add: rounding_def)

lemma rounding_nonneg:
  assumes "rounding rnd" and "0 \<le> x"
  shows "0 \<le> rnd x"
  using assms by (simp add: rounding_def)

lemma float_rem_pos:
  assumes R: "rounding rnd" and P: "0 < P" "P \<le> 30"
  shows "\<exists>r N. float_rem rnd a P = Inr r \<and> \<bar>r - (a - P * of_int N)\<bar> \<le> 1 / 1000000000 \<and>
           0 \<le> r \<and> r \<le> 31"
proof (cases "0 \<le> a")
  case True
  define N where "N = \<lfloor>a / P\<rfloor>"
  have q: "0 \<le> a / P" using True P by simp
  have pi: "py_int (a / P) = N" using q by (simp add: py_int_def N_def)
  have lo: "P * of_int N \<le> a"
  proof -
    have "of_int N \<le> a / P" unfolding N_def by (rule of_int_floor_le)
    then show ?thesis using P by (simp add: pos_le_divide_eq mult.commute)
  qed
  have hi: "a < P * of_int N + P"
  proof -
    have "a / P < of_int N + 1" unfolding N_def by linarith
    then have "a < (of_int N + 1) * P" using P by (simp add: pos_divide_less_eq)
    then show ?thesis by (simp add: algebra_simps)
  qed
  from lo have m: "0 \<le> fmod a P" by (simp add: fmod_def pi)
  from hi P have m31: "fmod a P \<le> 31" by (simp add: fmod_def pi)
  have "float_rem rnd a P = Inr (fmod a P)"
    using m P by (simp add: float_rem_def Let_def)
  moreover have "\<bar>fmod a P - (a - P * of_int N)\<bar> \<le> 1 / 1000000000"
    by (simp add: fmod_def pi)
  ultimately show ?thesis using m m31 by blast
next
  case False
  define N where "N = \<lceil>a / P\<rceil>"
  have q: "a / P < 0" using False P by (simp add: divide_neg_pos)
  have pi: "py_int (a / P) = N" using q by (simp add: py_int_def N_def)
  have up: "a \<le> P * of_int N"
  proof -
    have "a / P \<le> of_int N" unfolding N_def by (rule le_of_int_ceiling)
    then show ?thesis using P by (simp add: pos_divide_le_eq mult.commute)
  qed
  have dn: "P * of_int N < a + P"
  proof -
    have "of_int N < a / P + 1" unfolding N_def by linarith
    then have "P * of_int N < P * (a / P + 1)" using P by simp
    then show ?thesis using P by (simp add: algebra_simps)
  qed
  have m: "fmod a P = a - P * of_int N" by (simp add: fmod_def pi)
  show ?thesis
  proof (cases "fmod a P = 0")
    case True
    then have "float_rem rnd a P = Inr 0" using P by (simp add: float_rem_def Let_def)
    moreover have "\<bar>0 - (a - P * of_int N)\<bar> \<le> 1 / 1000000000" using True m by simp
    ultimately show ?thesis by (intro exI [of _ 0] exI [of _ N]) simp
  next
    case nz: False
    from up m nz have neg: "fmod a P < 0" by simp
    have fr: "float_rem rnd a P = Inr (rnd (fmod a P + P))"
      using nz neg P by (simp add: float_rem_def Let_def)
    have pos: "0 \<le> fmod a P + P" using dn m by simp
    have le: "fmod a P + P \<le> 30" using neg P by simp
    from pos le have "\<bar>fmod a P + P\<bar> \<le> 1000000" by simp
    from rounding_close [OF R this]
    have e: "\<bar>rnd (fmod a P + P) - (fmod a P + P)\<bar> \<le> 1 / 1000000000" .
    from rounding_nonneg [OF R pos] have r0: "0 \<le> rnd (fmod a P + P)" .
    from e le have r31: "rnd (fmod a P + P) \<le> 31" by linarith
    have "fmod a P + P = a - P * of_int (N - 1)" by (simp add: m algebra_simps)
    with e have "\<bar>rnd (fmod a P + P) - (a - P * of_int (N - 1))\<bar> \<le> 1 / 1000000000" by simp
    with fr r0 r31 show ?thesis by blast
  qed
qed

lemma abs_prod_le:
  fixes a b :: real
  assumes "\<bar>a\<bar> \<le> A" "\<bar>b\<bar> \<le> B"
  shows "\<bar>a * b\<bar> \<le> A * B"
proof -
  have "\<bar>a\<bar> * \<bar>b\<bar> \<le> A * B"
    using assms by (intro mult_mono) auto
  then show ?thesis by (simp add: abs_mult)
qed

lemma moon_raw_close:
  assumes R: "rounding rnd"
    and y: "dt_year now \<le> 10000" and m: "dt_month now \<le> 12" and d: "dt_day now \<le> 31"
  shows "\<bar>rnd (rnd (rnd (of_int (int (dt_year now) - 2000) * rnd 12.3685)
                    + real (dt_month now)) + rnd (real (dt_day now) / 30)) - moon_exact now\<bar>
           \<le> 1 / 100000"
proof -
  note r = rounding_close [OF R]
  define n :: real where "n = of_int (int (dt_year now) - 2000)"
  define c where "c = rnd 12.3685"
  define k where "k = n * 12.3685"
  define p1 where "p1 = rnd (n * c)"
  define mo where "mo = real (dt_month now)"
  define dy where "dy = real (dt_day now) / 30"
  define s1 where "s1 = rnd (p1 + mo)"
  define q where "q = rnd dy"
  have n: "\<bar>n\<bar> \<le> 8000" using y by (simp add: n_def)
  have mm: "0 \<le> mo" "mo \<le> 12" using m by (simp_all add: mo_def)
  have dd: "0 \<le> dy" "dy \<le> 2" using d by (simp_all add: dy_def)
  have c: "\<bar>c - 12.3685\<bar> \<le> 1 / 1000000000" unfolding c_def by (rule r) simp
  have "\<bar>n * (c - 12.3685)\<bar> \<le> 8000 * (1 / 1000000000)"
    by (rule abs_prod_le [OF n c])
  then have nc: "\<bar>n * c - k\<bar> \<le> 1 / 125000" by (simp add: algebra_simps k_def)
  have "\<bar>n * 12.3685\<bar> \<le> 8000 * 12.3685"
    by (rule abs_prod_le [OF n]) simp
  then have k: "\<bar>k\<bar> \<le> 98948" by (simp add: k_def)
  have b1: "\<bar>n * c\<bar> \<le> 1000000" using nc k by linarith
  have p1: "\<bar>p1 - n * c\<bar> \<le> 1 / 1000000000" unfolding p1_def by (rule r [OF b1])
  have b2: "\<bar>p1 + mo\<bar> \<le> 1000000" using nc k p1 mm by linarith
  have s1: "\<bar>s1 - (p1 + mo)\<bar> \<le> 1 / 1000000000" unfolding s1_def by (rule r [OF b2])
  have b3: "\<bar>dy\<bar> \<le> 1000000" using dd by linarith
  have q: "\<bar>q - dy\<bar> \<le> 1 / 1000000000" unfolding q_def by (rule r [OF b3])
  have b4: "\<bar>s1 + q\<bar> \<le> 1000000" using nc k p1 mm s1 q dd by linarith
  have a: "\<bar>rnd (s1 + q) - (s1 + q)\<bar> \<le> 1 / 1000000000" by (rule r [OF b4])
  have "\<bar>rnd (s1 + q) - (k + mo + dy)\<bar> \<le> 1 / 100000"
    using nc p1 s1 q a by linarith
  then show ?thesis
    unfolding moon_exact_def s1_def q_def p1_def c_def n_def k_def mo_def dy_def .
qed

lemma moon_exact_bound:
  assumes y: "dt_year now \<le> 10000" and m: "dt_month now \<le> 12" and d: "dt_day now \<le> 31"
  shows "\<bar>moon_exact now\<bar> \<le> 100000"
proof -
  define n :: real where "n = of_int (int (dt_year now) - 2000)"
  have n: "\<bar>n\<bar> \<le> 8000" using y by (simp add: n_def)
  have "\<bar>n * 12.3685\<bar> \<le> 8000 * 12.3685"
    by (rule abs_prod_le [OF n]) simp
  then have nc1: "\<bar>n * 12.3685\<bar> \<le> 98948" by simp
  define k where "k = n * 12.3685"
  define mo where "mo = real (dt_month now)"
  define dy where "dy = real (dt_day now) / 30"
  have mm: "0 \<le> mo" "mo \<le> 12" using m by (simp_all add: mo_def)
  have dd: "0 \<le> dy" "dy \<le> 2" using d by (simp_all add: dy_def)
  have k: "\<bar>k\<bar> \<le> 98948" using nc1 by (simp add: k_def)
  have "\<bar>k + mo + dy\<bar> \<le> 100000"
    using k mm dd by linarith
  then show ?thesis unfolding moon_exact_def n_def k_def mo_def dy_def .
qed

lemma abs_sum3_le:
  fixes x y z :: real
  assumes "\<bar>x\<bar> \<le> a" "\<bar>y\<bar> \<le> b" "\<bar>z\<bar> \<le> c"
  shows "\<bar>8 * x + 8 * y + z\<bar> \<le> 8 * a + 8 * b + c"
  using assms by linarith

lemma abs_sum3_le_first:
  fixes x y z :: real
  assumes "\<bar>x\<bar> \<le> a" "\<bar>y\<bar> \<le> b" "\<bar>z\<bar> \<le> c"
  shows "\<bar>x + 8 * y + z\<bar> \<le> a + 8 * b + c"
  using assms by linarith

lemma phase_idx_floor:
  assumes R: "rounding rnd"
    and y: "dt_year now \<le> 10000" and m: "dt_month now \<le> 12" and d: "dt_day now \<le> 31"
  shows "\<exists>u. phase_idx rnd now = Inr (\<lfloor>u\<rfloor> mod 8) \<and>
           \<bar>u - 8 * moon_exact now / 29.53\<bar> \<le> 1 / 10000"
proof -
  note r = rounding_close [OF R]
  define a where "a = rnd (rnd (rnd (of_int (int (dt_year now) - 2000) * rnd 12.3685)
                    + real (dt_month now)) + rnd (real (dt_day now) / 30))"
  define P where "P = rnd 29.53"
  define A where "A = moon_exact now"
  define w where "w = 8 * A / (2953 / 100)"
  have aA: "\<bar>a - A\<bar> \<le> 1 / 100000"
    unfolding a_def A_def by (rule moon_raw_close [OF R y m d])
  have Ab: "\<bar>A\<bar> \<le> 100000" unfolding A_def by (rule moon_exact_bound [OF y m d])
  have "\<bar>P - 29.53\<bar> \<le> 1 / 1000000000" unfolding P_def by (rule r) simp
  then have Pc: "\<bar>P - 2953 / 100\<bar> \<le> 1 / 1000000000" by simp
  have P29: "29 \<le> P" and P30: "P \<le> 30" and P0: "0 < P" using Pc by linarith+
  from float_rem_pos [OF R P0 P30, of a] obtain rr N where
    fr: "float_rem rnd a P = Inr rr" and
    e1: "\<bar>rr - (a - P * of_int N)\<bar> \<le> 1 / 1000000000" and
    r0: "0 \<le> rr" and r31: "rr \<le> 31"
    by blast
  have age: "moon_age rnd now = Inr rr"
    using fr by (simp add: moon_age_def float_div_def ebind_def a_def P_def)
  define z where "z = rr / P"
  define x where "x = rnd z"
  define t where "t = rnd (x * 8)"
  have z0: "0 \<le> z" using r0 P0 by (simp add: z_def)
  have z2: "z \<le> 2"
  proof -
    have "rr \<le> 2 * P" using r31 P29 by linarith
    then show ?thesis using P0 by (simp add: z_def pos_divide_le_eq)
  qed
  have zP: "z * P = rr" using P0 by (simp add: z_def)
  have x0: "0 \<le> x" unfolding x_def by (rule rounding_nonneg [OF R z0])
  have xz: "\<bar>x - z\<bar> \<le> 1 / 1000000000" unfolding x_def by (rule r) (use z0 z2 in linarith)
  have t0: "0 \<le> t" unfolding t_def by (rule rounding_nonneg [OF R]) (use x0 in simp)
  have tx: "\<bar>t - x * 8\<bar> \<le> 1 / 1000000000" unfolding t_def
    by (rule r) (use x0 xz z2 in linarith)
  have idx: "phase_idx rnd now = Inr (\<lfloor>t\<rfloor> mod 8)"
  proof -
    have "phase_idx rnd now =
        ebind (moon_age rnd now) (\<lambda>age. ebind (float_div rnd age P)
          (\<lambda>q. Inr (py_int (rnd (q * 8)) mod 8)))"
      unfolding phase_idx_def P_def by (rule refl)
    also have "\<dots> = Inr (py_int t mod 8)"
      using P0 by (simp add: age ebind_def float_div_def t_def x_def z_def)
    also have "py_int t = \<lfloor>t\<rfloor>" using t0 by (simp add: py_int_def)
    finally show ?thesis .
  qed
  define u where "u = t + of_int (8 * N)"
  have fl: "\<lfloor>u\<rfloor> mod 8 = \<lfloor>t\<rfloor> mod 8"
    unfolding u_def by (simp only: floor_add_int [symmetric]) simp
  define g where "g = 8 * z + 8 * of_int N - w"
  have w29: "w * (2953 / 100) = 8 * A" by (simp add: w_def)
  have wb: "\<bar>w\<bar> \<le> 27100"
  proof -
    have "\<bar>w\<bar> * (2953 / 100) = 8 * \<bar>A\<bar>" using w29 [symmetric] by (simp add: abs_mult)
    then show ?thesis using Ab by simp
  qed
  have "\<bar>w * ((2953 / 100) - P)\<bar> \<le> 27100 * (1 / 1000000000)"
    by (rule abs_prod_le [OF wb]) (use Pc in linarith)
  then have wP: "\<bar>w * ((2953 / 100) - P)\<bar> \<le> 1 / 10000" by simp
  have gP: "g * P = 8 * (rr - (a - P * of_int N)) + 8 * (a - A) + w * ((2953 / 100) - P)"
  proof -
    have "g * P = 8 * (z * P) + 8 * of_int N * P - w * P"
      by (simp add: g_def algebra_simps)
    also have "\<dots> = 8 * rr + 8 * of_int N * P - w * P" by (simp only: zP)
    also have "\<dots> = 8 * (rr - (a - P * of_int N)) + 8 * (a - A) + (8 * A - w * P)"
      by (simp add: algebra_simps)
    also have "8 * A - w * P = w * ((2953 / 100) - P)"
      by (simp only: w29 [symmetric]) (simp add: algebra_simps)
    finally show ?thesis .
  qed
  have gPb: "\<bar>g * P\<bar> \<le> 1 / 1000"
    unfolding gP using abs_sum3_le [OF e1 aA wP] by simp
  have gb: "\<bar>g\<bar> \<le> 1 / 29000"
  proof -
    have "\<bar>g\<bar> * 29 \<le> \<bar>g\<bar> * P" using P29 by (simp add: mult_left_mono)
    also have "\<dots> = \<bar>g * P\<bar>" using P0 by (simp add: abs_mult)
    finally show ?thesis using gPb by linarith
  qed
  have "u - w = (t - x * 8) + 8 * (x - z) + g"
    by (simp add: u_def g_def)
  then have "\<bar>u - w\<bar> \<le> 1 / 10000"
    using abs_sum3_le_first [OF tx xz gb] by simp
  then have "\<bar>u - 8 * moon_exact now / 29.53\<bar> \<le> 1 / 10000"
    unfolding w_def A_def by simp
  with idx fl show ?thesis by (intro exI [of _ u]) simp
qed

lemma days_in_month_bounds: "28 \<le> days_in_month y m \<and> days_in_month y m \<le> 31"
  by (simp add: days_in_month_def)

lemma days_later_cases:
  assumes d: "dt_day now \<le> days_in_month (dt_year now) (dt_month now)" and j: "j \<le> 30"
  shows "(dt_day now + j \<le> days_in_month (dt_year now) (dt_month now) \<and>
          days_later j now =
            \<lparr>dt_year = dt_year now, dt_month = dt_month now, dt_day = dt_day now + j\<rparr>) \<or>
         (days_in_month (dt_year now) (dt_month now) < dt_day now + j \<and>
          dt_day now + j \<le> days_in_month (dt_year now) (dt_month now) +
            days_in_month (dt_year (first_of_next_month now)) (dt_month (first_of_next_month now)) \<and>
          days_later j now =
            \<lparr>dt_year = dt_year (first_of_next_month now),
             dt_month = dt_month (first_of_next_month now),
             dt_day = dt_day now + j - days_in_month (dt_year now) (dt_month now)\<rparr>) \<or>
         (days_in_month (dt_year now) (dt_month now) +
            days_in_month (dt_year (first_of_next_month now)) (dt_month (first_of_next_month now))
            < dt_day now + j \<and>
          days_later j now =
            \<lparr>dt_year = dt_year (first_of_next_month (first_of_next_month now)),
             dt_month = dt_month (first_of_next_month (first_of_next_month now)),
             dt_day = dt_day now + j - days_in_month (dt_year now) (dt_month now) -
               days_in_month (dt_year (first_of_next_month now))
                 (dt_month (first_of_next_month now))\<rparr>)"
  using j
proof (induction j)
  case 0
  then show ?case using d by (simp add: days_later_def)
next
  case (Suc j)
  define L0 where "L0 = days_in_month (dt_year now) (dt_month now)"
  define n1 where "n1 = first_of_next_month now"
  define L1 where "L1 = days_in_month (dt_year n1) (dt_month n1)"
  define n2 where "n2 = first_of_next_month n1"
  define L2 where "L2 = days_in_month (dt_year n2) (dt_month n2)"
  have b0: "28 \<le> L0" "L0 \<le> 31" unfolding L0_def using days_in_month_bounds by simp_all
  have b1: "28 \<le> L1" "L1 \<le> 31" unfolding L1_def using days_in_month_bounds by simp_all
  have b2: "28 \<le> L2" "L2 \<le> 31" unfolding L2_def using days_in_month_bounds by simp_all
  have dL: "dt_day now \<le> L0" using d by (simp add: L0_def)
  from Suc.prems have j: "j \<le> 29" by simp
  have step: "days_later (Suc j) now = next_day (days_later j now)"
    by (simp add: days_later_def)
  have fon: "\<And>y m e. first_of_next_month \<lparr>dt_year = y, dt_month = m, dt_day = e\<rparr> =
      first_of_next_month \<lparr>dt_year = y, dt_month = m, dt_day = 0\<rparr>"
    by (simp add: first_of_next_month_def)
  have n1': "first_of_next_month \<lparr>dt_year = dt_year now, dt_month = dt_month now, dt_day = e\<rparr> = n1" for e
    by (simp add: first_of_next_month_def n1_def)
  have n2': "first_of_next_month \<lparr>dt_year = dt_year n1, dt_month = dt_month n1, dt_day = e\<rparr> = n2" for e
    by (simp add: first_of_next_month_def n2_def)
  have n1d: "n1 = \<lparr>dt_year = dt_year n1, dt_month = dt_month n1, dt_day = 1\<rparr>"
    by (simp add: n1_def first_of_next_month_def)
  have n2d: "n2 = \<lparr>dt_year = dt_year n2, dt_month = dt_month n2, dt_day = 1\<rparr>"
    by (simp add: n2_def first_of_next_month_def)
  from Suc.IH j consider
    (a) "dt_day now + j \<le> L0"
      "days_later j now = \<lparr>dt_year = dt_year now, dt_month = dt_month now, dt_day = dt_day now + j\<rparr>"
    | (b) "L0 < dt_day now + j" "dt_day now + j \<le> L0 + L1"
      "days_later j now = \<lparr>dt_year = dt_year n1, dt_month = dt_month n1, dt_day = dt_day now + j - L0\<rparr>"
    | (c) "L0 + L1 < dt_day now + j"
      "days_later j now = \<lparr>dt_year = dt_year n2, dt_month = dt_month n2, dt_day = dt_day now + j - L0 - L1\<rparr>"
    unfolding L0_def L1_def n1_def n2_def by fastforce
  then have "(dt_day now + Suc j \<le> L0 \<and>
          days_later (Suc j) now =
            \<lparr>dt_year = dt_year now, dt_month = dt_month now, dt_day = dt_day now + Suc j\<rparr>) \<or>
         (L0 < dt_day now + Suc j \<and> dt_day now + Suc j \<le> L0 + L1 \<and>
          days_later (Suc j) now =
            \<lparr>dt_year = dt_year n1, dt_month = dt_month n1, dt_day = dt_day now + Suc j - L0\<rparr>) \<or>
         (L0 + L1 < dt_day now + Suc j \<and>
          days_later (Suc j) now =
            \<lparr>dt_year = dt_year n2, dt_month = dt_month n2,
             dt_day = dt_day now + Suc j - L0 - L1\<rparr>)"
  proof cases
    case a
    show ?thesis
    proof (cases "dt_day now + j < L0")
      case True
      then have "days_later (Suc j) now =
          \<lparr>dt_year = dt_year now, dt_month = dt_month now, dt_day = dt_day now + Suc j\<rparr>"
        by (simp add: step a(2) next_day_def L0_def)
      with True show ?thesis by simp
    next
      case False
      with a(1) have eq: "dt_day now + j = L0" by simp
      have "days_later (Suc j) now = n1"
        using eq by (simp add: step a(2) next_day_def L0_def [symmetric] n1')
      also have "n1 = \<lparr>dt_year = dt_year n1, dt_month = dt_month n1, dt_day = dt_day now + Suc j - L0\<rparr>"
        using eq n1d by simp
      finally show ?thesis using eq b1 by simp
    qed
  next
    case b
    show ?thesis
    proof (cases "dt_day now + j - L0 < L1")
      case True
      then have "days_later (Suc j) now =
          \<lparr>dt_year = dt_year n1, dt_month = dt_month n1, dt_day = dt_day now + Suc j - L0\<rparr>"
        using b(1) by (simp add: step b(3) next_day_def L1_def Suc_diff_le)
      with True b(1) show ?thesis by simp
    next
      case False
      with b(1,2) have eq: "dt_day now + j = L0 + L1" by simp
      have "days_later (Suc j) now = n2"
        using eq by (simp add: step b(3) next_day_def L1_def [symmetric] n2')
      also have "n2 = \<lparr>dt_year = dt_year n2, dt_month = dt_month n2,
          dt_day = dt_day now + Suc j - L0 - L1\<rparr>"
        using eq n2d by simp
      finally show ?thesis using eq by simp
    qed
  next
    case c
    have small: "dt_day now + j - L0 - L1 < L2" using dL j b0 b1 b2 by simp
    have "days_later (Suc j) now =
          \<lparr>dt_year = dt_year n2, dt_month = dt_month n2, dt_day = dt_day now + Suc j - L0 - L1\<rparr>"
      using small c(1) by (simp add: step c(2) next_day_def L2_def [symmetric] Suc_diff_le)
    with c(1) show ?thesis by simp
  qed
  then show ?case unfolding L0_def L1_def n1_def n2_def .
qed

lemma moon_exact_record:
  "moon_exact \<lparr>dt_year = y, dt_month = m, dt_day = e\<rparr> = month_part y m + real e / 30"
  by (simp add: moon_exact_def month_part_def)

lemma moon_exact_month_part:
  "moon_exact now = month_part (dt_year now) (dt_month now) + real (dt_day now) / 30"
  by (simp add: moon_exact_def month_part_def)

lemma first_of_next_month_part:
  assumes m: "dt_month dt \<le> 12"
  shows "1 \<le> month_part (dt_year (first_of_next_month dt)) (dt_month (first_of_next_month dt))
              - month_part (dt_year dt) (dt_month dt) \<and>
         month_part (dt_year (first_of_next_month dt)) (dt_month (first_of_next_month dt))
              - month_part (dt_year dt) (dt_month dt) \<le> 14 / 10 \<and>
         dt_month (first_of_next_month dt) \<le> 12"
proof (cases "dt_month dt < 12")
  case True
  then show ?thesis by (simp add: first_of_next_month_def month_part_def)
next
  case False
  with m have m12: "dt_month dt = 12" by simp
  define n :: real where "n = of_int (int (dt_year dt) - 2000)"
  have n1: "of_int (int (dt_year dt + 1) - 2000) = n + 1" by (simp add: n_def)
  have f: "first_of_next_month dt = \<lparr>dt_year = dt_year dt + 1, dt_month = 1, dt_day = 1\<rparr>"
    by (simp add: first_of_next_month_def m12)
  have a: "month_part (dt_year dt + 1) 1 = (n + 1) * 12.3685 + 1"
    by (simp only: month_part_def n1 of_nat_1)
  have b: "month_part (dt_year dt) 12 = n * 12.3685 + 12"
    by (simp only: month_part_def n_def of_nat_numeral)
  have "month_part (dt_year dt + 1) 1 - month_part (dt_year dt) 12 = 13685 / 10000"
    unfolding a b by (simp add: algebra_simps)
  then show ?thesis by (simp add: f m12)
qed

lemma first_of_next_month_year:
  "dt_year (first_of_next_month dt) \<le> dt_year dt + 1 \<and>
   dt_year (first_of_next_month (first_of_next_month dt)) \<le> dt_year dt + 1"
  by (simp add: first_of_next_month_def)

lemma one_rollover_bounds:
  fixes D k L :: real
  assumes "1 \<le> D" "D \<le> 14 / 10" "29 \<le> k" "k \<le> 30" "28 \<le> L" "L \<le> 31"
  shows "9 / 10 \<le> D + (k - L) / 30 \<and> D + (k - L) / 30 \<le> 2"
  using assms by (simp add: field_simps)

lemma two_rollover_bounds:
  fixes D E k L M :: real
  assumes "1 \<le> E" "E \<le> 14 / 10" "1 \<le> D" "D \<le> 14 / 10" "29 \<le> k" "k \<le> 30"
    "28 \<le> L" "L \<le> 31" "28 \<le> M" "M \<le> 29"
  shows "9 / 10 \<le> E + D + (k - L - M) / 30 \<and> E + D + (k - L - M) / 30 \<le> 2"
  using assms by (simp add: field_simps)

lemma moon_exact_step:
  assumes g: "gregorian_date now" and k: "k = 29 \<or> k = 30"
  shows "9 / 10 \<le> moon_exact (days_later k now) - moon_exact now \<and>
         moon_exact (days_later k now) - moon_exact now \<le> 2 \<and>
         dt_year (days_later k now) \<le> 10000 \<and> dt_month (days_later k now) \<le> 12 \<and>
         dt_day (days_later k now) \<le> 31"
proof -
  define L0 where "L0 = days_in_month (dt_year now) (dt_month now)"
  define n1 where "n1 = first_of_next_month now"
  define L1 where "L1 = days_in_month (dt_year n1) (dt_month n1)"
  define n2 where "n2 = first_of_next_month n1"
  have b0: "28 \<le> L0" "L0 \<le> 31" unfolding L0_def using days_in_month_bounds by simp_all
  have b1: "28 \<le> L1" "L1 \<le> 31" unfolding L1_def using days_in_month_bounds by simp_all
  from g have y: "dt_year now \<le> 9999" and m: "dt_month now \<le> 12" and dL: "dt_day now \<le> L0"
    and d1: "1 \<le> dt_day now"
    by (simp_all add: gregorian_date_def L0_def)
  from k have k30: "k \<le> 30" and k29: "29 \<le> k" by auto
  from first_of_next_month_part [OF m]
  have s1: "1 \<le> month_part (dt_year n1) (dt_month n1) - month_part (dt_year now) (dt_month now)"
    "month_part (dt_year n1) (dt_month n1) - month_part (dt_year now) (dt_month now) \<le> 14 / 10"
    and m1: "dt_month n1 \<le> 12"
    by (simp_all add: n1_def)
  from first_of_next_month_part [OF m1]
  have s2: "1 \<le> month_part (dt_year n2) (dt_month n2) - month_part (dt_year n1) (dt_month n1)"
    "month_part (dt_year n2) (dt_month n2) - month_part (dt_year n1) (dt_month n1) \<le> 14 / 10"
    and m2: "dt_month n2 \<le> 12"
    by (simp_all add: n2_def)
  from first_of_next_month_year [of now] y
  have y1: "dt_year n1 \<le> 10000" and y2: "dt_year n2 \<le> 10000"
    by (simp_all add: n1_def n2_def)
  from days_later_cases [OF dL [unfolded L0_def] k30] consider
    (a) "dt_day now + k \<le> L0"
      "days_later k now = \<lparr>dt_year = dt_year now, dt_month = dt_month now, dt_day = dt_day now + k\<rparr>"
    | (b) "L0 < dt_day now + k" "dt_day now + k \<le> L0 + L1"
      "days_later k now = \<lparr>dt_year = dt_year n1, dt_month = dt_month n1, dt_day = dt_day now + k - L0\<rparr>"
    | (c) "L0 + L1 < dt_day now + k"
      "days_later k now = \<lparr>dt_year = dt_year n2, dt_month = dt_month n2, dt_day = dt_day now + k - L0 - L1\<rparr>"
    unfolding L0_def L1_def n1_def n2_def by fastforce
  then show ?thesis
  proof cases
    case a
    have "moon_exact (days_later k now) - moon_exact now = real k / 30"
      by (simp add: a(2) moon_exact_record moon_exact_month_part add_divide_distrib)
    moreover have "29 \<le> real k" "real k \<le> 30" using k29 k30 by simp_all
    ultimately have "9 / 10 \<le> moon_exact (days_later k now) - moon_exact now"
      "moon_exact (days_later k now) - moon_exact now \<le> 2"
      by simp_all
    moreover have "dt_day (days_later k now) \<le> 31" using a(1) b0 by (simp add: a(2))
    ultimately show ?thesis using y m by (simp add: a(2))
  next
    case b
    define e where "e = dt_day now + k - L0"
    have e: "real e = real (dt_day now) + real k - real L0"
      using b(1) by (simp add: e_def)
    have me: "moon_exact (days_later k now) - moon_exact now =
        (month_part (dt_year n1) (dt_month n1) - month_part (dt_year now) (dt_month now))
        + (real k - real L0) / 30"
      by (simp add: b(3) e_def [symmetric] moon_exact_record moon_exact_month_part e
          add_divide_distrib diff_divide_distrib)
    have kk: "29 \<le> real k" "real k \<le> 30" using k29 k30 by simp_all
    have ll: "28 \<le> real L0" "real L0 \<le> 31" using b0 by simp_all
    have "9 / 10 \<le> moon_exact (days_later k now) - moon_exact now \<and>
        moon_exact (days_later k now) - moon_exact now \<le> 2"
      unfolding me by (rule one_rollover_bounds [OF s1 kk ll])
    moreover have "dt_day (days_later k now) \<le> 31" using b(2) b1 by (simp add: b(3))
    ultimately show ?thesis using y1 m1 by (simp add: b(3))
  next
    case c
    define e where "e = dt_day now + k - L0 - L1"
    have e: "real e = real (dt_day now) + real k - real L0 - real L1"
      using c(1) by (simp add: e_def)
    have me: "moon_exact (days_later k now) - moon_exact now =
        (month_part (dt_year n2) (dt_month n2) - month_part (dt_year n1) (dt_month n1)) +
        (month_part (dt_year n1) (dt_month n1) - month_part (dt_year now) (dt_month now)) +
        (real k - real L0 - real L1) / 30"
      unfolding c(2) e_def [symmetric] moon_exact_record moon_exact_month_part [of now] e
      by (simp add: add_divide_distrib diff_divide_distrib)
    have kk: "29 \<le> real k" "real k \<le> 30" using k29 k30 by simp_all
    have ll: "28 \<le> real L0" "real L0 \<le> 31" using b0 by simp_all
    have "L1 < 30" using c(1) dL k30 by simp
    then have l1: "28 \<le> real L1" "real L1 \<le> 29" using b1 by simp_all
    have "9 / 10 \<le> moon_exact (days_later k now) - moon_exact now \<and>
        moon_exact (days_later k now) - moon_exact now \<le> 2"
      unfolding me by (rule two_rollover_bounds [OF s2 s1 kk ll l1])
    moreover have "dt_day (days_later k now) \<le> 31" using dL k30 b0 b1 by (simp add: c(2))
    ultimately show ?thesis using y2 m2 by (simp add: c(2))
  qed
qed

lemma floor_next:
  fixes u v :: real
  assumes "u \<le> v" and "v < u + 1"
  shows "\<lfloor>v\<rfloor> = \<lfloor>u\<rfloor> \<or> \<lfloor>v\<rfloor> = \<lfloor>u\<rfloor> + 1"
proof -
  have "\<lfloor>u\<rfloor> \<le> \<lfloor>v\<rfloor>" using assms(1) by (rule floor_mono)
  moreover have "\<lfloor>v\<rfloor> \<le> \<lfloor>u + 1\<rfloor>" using assms(2) by (intro floor_mono) simp
  ultimately show ?thesis by simp linarith
qed

text \<open>
  C4. The phase index is a function of the calendar date (and of the rounding of the
  host's floats): for every Gregorian date of the years 1 to 9999 the computation
  raises nothing and returns one index from 0 to 7, the whole part, modulo 8, of a
  number within \<open>1 / 10 ^ 4\<close> of eight times the exact value of the formula over 29.53.
  The calendar date one synodic period of 29.53 days later is the date 29 or 30 days
  later; at either, the index is the same or the next one in the cycle of eight, so
  the phase bucket is the same within one bucket boundary.
\<close>

theorem moon_phase_synodic_period:
  assumes R: "rounding rnd" and g: "gregorian_date now" and k: "k = 29 \<or> k = 30"
  shows "\<exists>idx idx' u v. phase_idx rnd now = Inr idx \<and>
           phase_idx rnd (days_later k now) = Inr idx' \<and>
           idx = \<lfloor>u\<rfloor> mod 8 \<and>
           \<bar>u - 8 * (of_int (int (dt_year now) - 2000) * 12.3685 + real (dt_month now)
                      + real (dt_day now) / 30) / 29.53\<bar> \<le> 1 / 10000 \<and>
           idx' = \<lfloor>v\<rfloor> mod 8 \<and>
           \<bar>v - 8 * moon_exact (days_later k now) / 29.53\<bar> \<le> 1 / 10000 \<and>
           0 \<le> idx \<and> idx < 8 \<and> 0 \<le> idx' \<and> idx' < 8 \<and>
           (idx' = idx \<or> idx' = (idx + 1) mod 8)"
proof -
  from g have y: "dt_year now \<le> 10000" and m: "dt_month now \<le> 12" and d: "dt_day now \<le> 31"
    using days_in_month_bounds [of "dt_year now" "dt_month now"]
    by (simp_all add: gregorian_date_def)
  from moon_exact_step [OF g k]
  have lo: "9 / 10 \<le> moon_exact (days_later k now) - moon_exact now"
    and hi: "moon_exact (days_later k now) - moon_exact now \<le> 2"
    and y': "dt_year (days_later k now) \<le> 10000" and m': "dt_month (days_later k now) \<le> 12"
    and d': "dt_day (days_later k now) \<le> 31"
    by simp_all
  from phase_idx_floor [OF R y m d] obtain u where
    p: "phase_idx rnd now = Inr (\<lfloor>u\<rfloor> mod 8)" and
    u: "\<bar>u - 8 * moon_exact now / 29.53\<bar> \<le> 1 / 10000"
    by blast
  from phase_idx_floor [OF R y' m' d'] obtain v where
    p': "phase_idx rnd (days_later k now) = Inr (\<lfloor>v\<rfloor> mod 8)" and
    v: "\<bar>v - 8 * moon_exact (days_later k now) / 29.53\<bar> \<le> 1 / 10000"
    by blast
  define A where "A = moon_exact now"
  define B where "B = moon_exact (days_later k now)"
  have eqA: "8 * moon_exact now / 29.53 = A * (800 / 2953)" by (simp add: A_def)
  have eqB: "8 * moon_exact (days_later k now) / 29.53 = B * (800 / 2953)" by (simp add: B_def)
  have u': "\<bar>u - A * (800 / 2953)\<bar> \<le> 1 / 10000" using u unfolding eqA .
  have v': "\<bar>v - B * (800 / 2953)\<bar> \<le> 1 / 10000" using v unfolding eqB .
  have AB: "9 / 10 \<le> B - A" "B - A \<le> 2" using lo hi by (simp_all add: A_def B_def)
  have uv: "u \<le> v" "v < u + 1" using u' v' AB by linarith+
  from floor_next [OF uv] have fl: "\<lfloor>v\<rfloor> = \<lfloor>u\<rfloor> \<or> \<lfloor>v\<rfloor> = \<lfloor>u\<rfloor> + 1" .
  have nxt: "\<lfloor>v\<rfloor> mod 8 = \<lfloor>u\<rfloor> mod 8 \<or> \<lfloor>v\<rfloor> mod 8 = (\<lfloor>u\<rfloor> mod 8 + 1) mod 8"
    using fl by (auto simp add: mod_add_left_eq)
  have rng: "0 \<le> \<lfloor>u\<rfloor> mod 8" "\<lfloor>u\<rfloor> mod 8 < 8" "0 \<le> \<lfloor>v\<rfloor> mod 8" "\<lfloor>v\<rfloor> mod 8 < 8"
    by simp_all
  note u0 = u [unfolded moon_exact_def]
  show ?thesis
    by (rule exI [of _ "\<lfloor>u\<rfloor> mod 8"], rule exI [of _ "\<lfloor>v\<rfloor> mod 8"],
        rule exI [of _ u], rule exI [of _ v])
      (intro conjI p p' refl u0 v rng nxt)
qed

theorem moon_phase_synodic_period_witness:
  "rounding (\<lambda>x. x) \<and>
   gregorian_date \<lparr>dt_year = 2024, dt_month = 1, dt_day = 15\<rparr> \<and>
   days_later 29 \<lparr>dt_year = 2024, dt_month = 1, dt_day = 15\<rparr> =
     \<lparr>dt_year = 2024, dt_month = 2, dt_day = 13\<rparr> \<and>
   phase_idx (\<lambda>x. x) \<lparr>dt_year = 2024, dt_month = 1, dt_day = 15\<rparr> = Inr 0 \<and>
   phase_idx (\<lambda>x. x) \<lparr>dt_year = 2024, dt_month = 2, dt_day = 13\<rparr> = Inr 1 \<and>
   gregorian_date \<lparr>dt_year = 2024, dt_month = 1, dt_day = 1\<rparr> \<and>
   days_later 29 \<lparr>dt_year = 2024, dt_month = 1, dt_day = 1\<rparr> =
     \<lparr>dt_year = 2024, dt_month = 1, dt_day = 30\<rparr> \<and>
   phase_idx (\<lambda>x. x) \<lparr>dt_year = 2024, dt_month = 1, dt_day = 1\<rparr> = Inr 0 \<and>
   phase_idx (\<lambda>x. x) \<lparr>dt_year = 2024, dt_month = 1, dt_day = 30\<rparr> = Inr 0 \<and>
   (\<exists>idx idx'.
      phase_idx (\<lambda>x. x) \<lparr>dt_year = 2024, dt_month = 1, dt_day = 15\<rparr> = Inr idx \<and>
      phase_idx (\<lambda>x. x)
        (days_later 29 \<lparr>dt_year = 2024, dt_month = 1, dt_day = 15\<rparr>) = Inr idx' \<and>
      0 \<le> idx \<and> idx < 8 \<and> 0 \<le> idx' \<and> idx' < 8 \<and>
      (idx' = idx \<or> idx' = (idx + 1) mod 8))"
proof -
  have R: "rounding (\<lambda>x. x)" by (simp add: rounding_def)
  have g1: "gregorian_date \<lparr>dt_year = 2024, dt_month = 1, dt_day = 15\<rparr>"
    by (simp add: gregorian_date_def days_in_month_def)
  have g2: "gregorian_date \<lparr>dt_year = 2024, dt_month = 1, dt_day = 1\<rparr>"
    by (simp add: gregorian_date_def days_in_month_def)
  have d1: "days_later 29 \<lparr>dt_year = 2024, dt_month = 1, dt_day = 15\<rparr> =
      \<lparr>dt_year = 2024, dt_month = 2, dt_day = 13\<rparr>"
    using days_later_cases [of "\<lparr>dt_year = 2024, dt_month = 1, dt_day = 15\<rparr>" 29]
    by (simp add: days_in_month_def leap_year_def first_of_next_month_def)
  have d2: "days_later 29 \<lparr>dt_year = 2024, dt_month = 1, dt_day = 1\<rparr> =
      \<lparr>dt_year = 2024, dt_month = 1, dt_day = 30\<rparr>"
    using days_later_cases [of "\<lparr>dt_year = 2024, dt_month = 1, dt_day = 1\<rparr>" 29]
    by (simp add: days_in_month_def leap_year_def first_of_next_month_def)
  have e1: "phase_idx (\<lambda>x. x) \<lparr>dt_year = 2024, dt_month = 1, dt_day = 15\<rparr> = Inr 0"
    by (simp add: phase_idx_def moon_age_def float_div_def float_rem_def fmod_def py_int_def
        ebind_def Let_def)
  have e2: "phase_idx (\<lambda>x. x) \<lparr>dt_year = 2024, dt_month = 2, dt_day = 13\<rparr> = Inr 1"
    by (simp add: phase_idx_def moon_age_def float_div_def float_rem_def fmod_def py_int_def
        ebind_def Let_def)
  have e3: "phase_idx (\<lambda>x. x) \<lparr>dt_year = 2024, dt_month = 1, dt_day = 1\<rparr> = Inr 0"
    by (simp add: phase_idx_def moon_age_def float_div_def float_rem_def fmod_def py_int_def
        ebind_def Let_def)
  have e4: "phase_idx (\<lambda>x. x) \<lparr>dt_year = 2024, dt_month = 1, dt_day = 30\<rparr> = Inr 0"
    by (simp add: phase_idx_def moon_age_def float_div_def float_rem_def fmod_def py_int_def
        ebind_def Let_def)
  have k: "(29::nat) = 29 \<or> (29::nat) = 30" by simp
  from moon_phase_synodic_period [OF R g1 k] obtain idx idx' where
    t: "phase_idx (\<lambda>x. x) \<lparr>dt_year = 2024, dt_month = 1, dt_day = 15\<rparr> = Inr idx"
      "phase_idx (\<lambda>x. x)
        (days_later 29 \<lparr>dt_year = 2024, dt_month = 1, dt_day = 15\<rparr>) = Inr idx'"
      "0 \<le> idx" "idx < 8" "0 \<le> idx'" "idx' < 8"
      "idx' = idx \<or> idx' = (idx + 1) mod 8"
    by blast
  have ex: "\<exists>idx idx'.
      phase_idx (\<lambda>x. x) \<lparr>dt_year = 2024, dt_month = 1, dt_day = 15\<rparr> = Inr idx \<and>
      phase_idx (\<lambda>x. x)
        (days_later 29 \<lparr>dt_year = 2024, dt_month = 1, dt_day = 15\<rparr>) = Inr idx' \<and>
      0 \<le> idx \<and> idx < 8 \<and> 0 \<le> idx' \<and> idx' < 8 \<and>
      (idx' = idx \<or> idx' = (idx + 1) mod 8)"
    by (rule exI [of _ idx], rule exI [of _ idx']) (intro conjI t)
  show ?thesis
    by (intro conjI R g1 g2 d1 d2 e1 e2 e3 e4 ex)
qed

end
